theory Spec2Isabelle
  imports Main "HOL-Library.Sublist"
begin

section \<open>Python strings\<close>

text \<open>
  A Python \<open>str\<close> is modelled as a \<open>char list\<close>, a character being a code point below
  256.  The methods \<open>split\<close>, \<open>endswith\<close> and \<open>replace\<close> depend on nothing but the
  sequence of characters, and are defined here.
\<close>

fun split_from :: "char \<Rightarrow> string \<Rightarrow> string \<Rightarrow> string list" where
  \<comment> \<open>one left-to-right scan; the second argument is the current item, reversed\<close>
  "split_from sep acc [] = [rev acc]"
| "split_from sep acc (c # cs) =
     (if c = sep then rev acc # split_from sep [] cs else split_from sep (c # acc) cs)"

definition split :: "string \<Rightarrow> char \<Rightarrow> string list" where
  \<comment> \<open>\<open>s.split(sep)\<close> for a one-character separator: never an empty list.\<close>
  "split s sep = split_from sep [] s"

definition endswith :: "string \<Rightarrow> string \<Rightarrow> bool" where
  \<comment> \<open>\<open>s.endswith(suf)\<close>\<close>
  "endswith s suf = (length suf \<le> length s \<and> drop (length s - length suf) s = suf)"

fun replace_from :: "string \<Rightarrow> string \<Rightarrow> nat \<Rightarrow> string \<Rightarrow> string" where
  \<comment> \<open>the third argument counts the characters of a match still to be skipped\<close>
  "replace_from old new k [] = []"
| "replace_from old new (Suc k) (c # cs) = replace_from old new k cs"
| "replace_from old new 0 (c # cs) =
     (if prefix old (c # cs) then new @ replace_from old new (length old - 1) cs
      else c # replace_from old new 0 cs)"

definition replace :: "string \<Rightarrow> string \<Rightarrow> string \<Rightarrow> string" where
  \<comment> \<open>\<open>s.replace(old, new)\<close> for a non-empty \<open>old\<close>: every occurrence, leftmost first,
      matches do not overlap.\<close>
  "replace s old new = replace_from old new 0 s"

text \<open>
  What \<open>int\<close>, \<open>str.strip\<close> and \<open>str.lower\<close> return depends on the character tables of
  the interpreter, and for \<open>int\<close> also on its limit on the number of digits of a
  numeral, which is a setting.  The query parser takes the three built-ins as
  parameters, so that what is proved about it holds whatever they do.  \<open>int\<close> applied
  to a string returns an integer or raises \<open>ValueError\<close>, for which \<open>None\<close> stands.
\<close>

record builtins =
  int_of_str :: "string \<Rightarrow> int option"
  str_strip :: "string \<Rightarrow> string"
  str_lower :: "string \<Rightarrow> string"

subsection \<open>ASCII character classes\<close>

text \<open>
  The whitespace, the digits and the lower-casing of ASCII.  The filter language of the
  later sections is written in them, and so are the concrete built-ins below; the
  query parser itself uses none of them.
\<close>

definition is_space :: "char \<Rightarrow> bool" where
  \<comment> \<open>TAB, LF, VT, FF, CR, FS, GS, RS, US and SPACE\<close>
  "is_space c = (let n = (of_char c :: nat) in (9 \<le> n \<and> n \<le> 13) \<or> (28 \<le> n \<and> n \<le> 32))"

definition is_digit :: "char \<Rightarrow> bool" where
  "is_digit c = (let n = (of_char c :: nat) in 48 \<le> n \<and> n \<le> 57)"

definition digit_val :: "char \<Rightarrow> nat" where
  "digit_val c = of_char c - 48"

definition lower_char :: "char \<Rightarrow> char" where
  "lower_char c = (let n = (of_char c :: nat) in if 65 \<le> n \<and> n \<le> 90 then char_of (n + 32) else c)"

definition lower :: "string \<Rightarrow> string" where
  "lower s = map lower_char s"

subsection \<open>The built-ins of CPython, for concrete runs\<close>

text \<open>
  To run the query parser on a concrete value, the three built-ins are written out here
  as CPython 3.11 has them on code points below 256, with the default limit of 4300
  digits.  Below 256 the whitespace of \<open>str.strip\<close> is that of ASCII with NEL (133)
  and NBSP (160); \<open>int\<close> skips the same characters but FS to US (28 to 31); the decimal
  digits are those of ASCII; \<open>str.lower\<close> maps each of A to Z and of the letters from
  192 to 222, the sign 215 apart, to the character 32 places further.
\<close>

definition strip_chars :: "(char \<Rightarrow> bool) \<Rightarrow> string \<Rightarrow> string" where
  "strip_chars P s = rev (dropWhile P (rev (dropWhile P s)))"

definition py_isspace :: "char \<Rightarrow> bool" where
  \<comment> \<open>\<open>c.isspace()\<close>\<close>
  "py_isspace c =
     (let n = (of_char c :: nat)
      in (9 \<le> n \<and> n \<le> 13) \<or> (28 \<le> n \<and> n \<le> 32) \<or> n = 133 \<or> n = 160)"

definition py_strip :: "string \<Rightarrow> string" where
  \<comment> \<open>\<open>s.strip()\<close>: leading and trailing whitespace removed.\<close>
  "py_strip s = strip_chars py_isspace s"

definition py_lower_char :: "char \<Rightarrow> char" where
  "py_lower_char c =
     (let n = (of_char c :: nat)
      in if (65 \<le> n \<and> n \<le> 90) \<or> (192 \<le> n \<and> n \<le> 222 \<and> n \<noteq> 215) then char_of (n + 32) else c)"

definition py_lower :: "string \<Rightarrow> string" where
  \<comment> \<open>\<open>s.lower()\<close>\<close>
  "py_lower s = map py_lower_char s"

fun digits_from :: "nat \<Rightarrow> string \<Rightarrow> nat option" where
  \<comment> \<open>the digits after the first one; an underscore must stand between two digits\<close>
  "digits_from n [] = Some n"
| "digits_from n (c # cs) =
     (if is_digit c then digits_from (10 * n + digit_val c) cs
      else if c = CHR ''_'' then
        (case cs of
           [] \<Rightarrow> None
         | d # ds \<Rightarrow> if is_digit d then digits_from (10 * n + digit_val d) ds else None)
      else None)"

definition digits_value :: "string \<Rightarrow> nat option" where
  "digits_value s =
     (case s of [] \<Rightarrow> None
      | c # cs \<Rightarrow> if is_digit c then digits_from (digit_val c) cs else None)"

definition is_int_space :: "char \<Rightarrow> bool" where
  \<comment> \<open>the whitespace \<open>int\<close> skips around a numeral: TAB, LF, VT, FF, CR, SPACE, NEL and
      NBSP (the separators FS to US, which \<open>str.strip\<close> removes, make \<open>int\<close> fail)\<close>
  "is_int_space c =
     (let n = (of_char c :: nat) in (9 \<le> n \<and> n \<le> 13) \<or> n = 32 \<or> n = 133 \<or> n = 160)"

definition max_str_digits :: nat where
  \<comment> \<open>\<open>sys.int_info.default_max_str_digits\<close>\<close>
  "max_str_digits = 4300"

definition py_int :: "string \<Rightarrow> int option" where
  \<comment> \<open>\<open>int(s)\<close> in base 10: surrounding whitespace, an optional sign, decimal digits
      with single underscores between them, no more digits than the limit.  \<open>None\<close>
      stands for \<open>ValueError\<close>.\<close>
  "py_int s =
     (if max_str_digits < length (filter is_digit s) then None
      else
        (case strip_chars is_int_space s of
           [] \<Rightarrow> None
         | c # cs \<Rightarrow>
             if c = CHR ''-'' then map_option (\<lambda>n. - int n) (digits_value cs)
             else if c = CHR ''+'' then map_option int (digits_value cs)
             else map_option int (digits_value (c # cs))))"

definition python :: builtins where
  "python = \<lparr>int_of_str = py_int, str_strip = py_strip, str_lower = py_lower\<rparr>"


section \<open>The options record and the exceptions\<close>

text \<open>
  \<open>ODataQueryOptions\<close> is the dataclass of \<^verbatim>\<open>query_parser.py\<close>; \<open>'n\<close> is the type of
  filter trees.  Every entry of \<open>orderby\<close> is a Python dict, kept as the list of its
  items in insertion order.
\<close>

record 'n ODataQueryOptions =
  count :: bool
  expand :: "string list option"
  filter' :: "'n option"
  format' :: "string option"
  orderby :: "(string \<times> string) list list option"
  search :: "string option"
  select :: "string list option"
  skip :: "int option"
  top' :: "int option"

definition default_options :: "'n ODataQueryOptions" where
  \<comment> \<open>\<open>ODataQueryOptions()\<close>\<close>
  "default_options =
     \<lparr>count = False, expand = None, filter' = None, format' = None, orderby = None,
      search = None, select = None, skip = None, top' = None\<rparr>"

text \<open>
  The exceptions that can leave the query parser.  \<open>FilterError e\<close> is the exception \<open>e\<close>
  raised inside \<open>filter_parser.parse\<close>; \<open>ValueError\<close> is what \<open>urlparse\<close> raises on a
  malformed URL.
\<close>

datatype 'e error =
    NoPositiveIntegerValue string string
  | UnsupportedFormat string
  | FilterError 'e
  | ValueError string


section \<open>The option handlers\<close>

text \<open>
  A handler receives the value and the options object, mutates the object and returns
  nothing, or raises.  The model returns the exception, if any, together with the
  object as the handler leaves it.  A handler that calls \<open>int\<close>, \<open>strip\<close> or \<open>lower\<close>
  has the built-ins as its first argument.
\<close>

type_synonym ('e, 'n) handler_result = "'e error option \<times> 'n ODataQueryOptions"

definition parse_count ::
  "builtins \<Rightarrow> string \<Rightarrow> 'n ODataQueryOptions \<Rightarrow> ('e, 'n) handler_result" where
  "parse_count py value options = (None, options\<lparr>count := (str_lower py value = ''true'')\<rparr>)"

definition parse_expand ::
  "builtins \<Rightarrow> string \<Rightarrow> 'n ODataQueryOptions \<Rightarrow> ('e, 'n) handler_result" where
  "parse_expand py value options =
     (if value \<noteq> [] then
        (None, options\<lparr>expand := Some (map (str_strip py) (split value CHR '',''))\<rparr>)
      else (None, options))"

definition parse_format :: "string \<Rightarrow> 'n ODataQueryOptions \<Rightarrow> ('e, 'n) handler_result" where
  "parse_format value options =
     (if value \<notin> set [''json'', ''xml'', ''csv'', ''tsv''] then (Some (UnsupportedFormat value), options)
      else (None, options\<lparr>format' := Some value\<rparr>))"

definition orderby_item :: "builtins \<Rightarrow> string \<Rightarrow> (string \<times> string) list" where
  \<comment> \<open>the body of the loop of \<open>_parse_orderby\<close>\<close>
  "orderby_item py item0 =
     (let item = str_strip py item0;
          lowercased_item = str_lower py item
      in if endswith lowercased_item '' asc'' then
           [(''field'', str_strip py (replace item '' asc'' '''')), (''direction'', ''asc'')]
         else if endswith lowercased_item '' desc'' then
           [(''field'', str_strip py (replace item '' desc'' '''')), (''direction'', ''desc'')]
         else
           [(''field'', item), (''direction'', ''asc'')])"

definition parse_orderby ::
  "builtins \<Rightarrow> string \<Rightarrow> 'n ODataQueryOptions \<Rightarrow> ('e, 'n) handler_result" where
  "parse_orderby py value options =
     (if value = [] then (None, options)
      else (None, options\<lparr>orderby := Some (map (orderby_item py) (split value CHR '',''))\<rparr>))"

definition parse_search ::
  "builtins \<Rightarrow> string \<Rightarrow> 'n ODataQueryOptions \<Rightarrow> ('e, 'n) handler_result" where
  "parse_search py value options = (None, options\<lparr>search := Some (str_strip py value)\<rparr>)"

definition parse_select ::
  "builtins \<Rightarrow> string \<Rightarrow> 'n ODataQueryOptions \<Rightarrow> ('e, 'n) handler_result" where
  "parse_select py value options =
     (if value \<noteq> [] then
        (None, options\<lparr>select := Some (map (str_strip py) (split value CHR '',''))\<rparr>)
      else (None, options))"

definition parse_skip ::
  "builtins \<Rightarrow> string \<Rightarrow> 'n ODataQueryOptions \<Rightarrow> ('e, 'n) handler_result" where
  \<comment> \<open>the field is assigned before the assertion is checked\<close>
  "parse_skip py value options =
     (case int_of_str py value of
        None \<Rightarrow> (Some (NoPositiveIntegerValue ''$skip'' value), options)
      | Some n \<Rightarrow>
          if n \<ge> 0 then (None, options\<lparr>skip := Some n\<rparr>)
          else (Some (NoPositiveIntegerValue ''$skip'' value), options\<lparr>skip := Some n\<rparr>))"

definition parse_top ::
  "builtins \<Rightarrow> string \<Rightarrow> 'n ODataQueryOptions \<Rightarrow> ('e, 'n) handler_result" where
  "parse_top py value options =
     (case int_of_str py value of
        None \<Rightarrow> (Some (NoPositiveIntegerValue ''$top'' value), options)
      | Some n \<Rightarrow>
          if n \<ge> 0 then (None, options\<lparr>top' := Some n\<rparr>)
          else (Some (NoPositiveIntegerValue ''$top'' value), options\<lparr>top' := Some n\<rparr>))"


text \<open>
  \<open>_parse_filter\<close> hands the value to \<open>self.filter_parser.parse\<close>, which lives in
  another module.  That call is a parameter here: a procedure that takes the value and
  the state \<open>'w\<close> of whatever it touches, and returns the tree or the exception it
  raises, with the new state.
\<close>

type_synonym ('e, 'n, 'w) filter_parser = "string \<Rightarrow> 'w \<Rightarrow> ('e + 'n) \<times> 'w"

type_synonym ('e, 'n, 'w) handler =
  "string \<Rightarrow> 'n ODataQueryOptions \<Rightarrow> 'w \<Rightarrow> ('e, 'n) handler_result \<times> 'w"

definition parse_filter :: "('e, 'n, 'w) filter_parser \<Rightarrow> ('e, 'n, 'w) handler" where
  "parse_filter fp value options w =
     (case fp value w of
        (Inl e, w') \<Rightarrow> ((Some (FilterError e), options), w')
      | (Inr node, w') \<Rightarrow> ((None, options\<lparr>filter' := Some node\<rparr>), w'))"

definition no_call ::
  "(string \<Rightarrow> 'n ODataQueryOptions \<Rightarrow> ('e, 'n) handler_result) \<Rightarrow> ('e, 'n, 'w) handler" where
  \<comment> \<open>a handler that never reaches the filter parser\<close>
  "no_call h value options w = (h value options, w)"


section \<open>The query parser\<close>

definition supported_options ::
  "builtins \<Rightarrow> ('e, 'n, 'w) filter_parser \<Rightarrow> (string \<times> ('e, 'n, 'w) handler) list" where
  \<comment> \<open>the dispatch table built in \<open>__init__\<close>\<close>
  "supported_options py fp =
     [(''$count'', no_call (parse_count py)),
      (''$expand'', no_call (parse_expand py)),
      (''$filter'', parse_filter fp),
      (''$format'', no_call parse_format),
      (''$orderby'', no_call (parse_orderby py)),
      (''$search'', no_call (parse_search py)),
      (''$select'', no_call (parse_select py)),
      (''$skip'', no_call (parse_skip py)),
      (''$top'', no_call (parse_top py))]"

text \<open>
  \<open>query_params\<close> is a Python dict from names to lists of values: its items in
  insertion order, which is the order the loop visits them in.  A list entry may be
  \<open>None\<close>, which the loop tests for.
\<close>

type_synonym query_params = "(string \<times> string option list) list"

definition first_value :: "string option list \<Rightarrow> string option" where
  \<comment> \<open>\<open>values[0] if values else None\<close>\<close>
  "first_value values = (case values of [] \<Rightarrow> None | v # _ \<Rightarrow> v)"

fun params_loop ::
  "builtins \<Rightarrow> ('e, 'n, 'w) filter_parser \<Rightarrow> query_params \<Rightarrow> 'n ODataQueryOptions \<Rightarrow> 'w
     \<Rightarrow> ('e error + 'n ODataQueryOptions) \<times> 'w" where
  \<comment> \<open>the \<open>for\<close> loop of \<open>parse_query_params\<close>; an exception ends it\<close>
  "params_loop py fp [] options w = (Inr options, w)"
| "params_loop py fp ((param, values) # rest) options w =
     (case map_of (supported_options py fp) param of
        None \<Rightarrow> params_loop py fp rest options w
      | Some parser_func \<Rightarrow>
          (case first_value values of
             None \<Rightarrow> params_loop py fp rest options w
           | Some value \<Rightarrow>
               (case parser_func value options w of
                  ((Some e, _), w') \<Rightarrow> (Inl e, w')
                | ((None, options'), w') \<Rightarrow> params_loop py fp rest options' w')))"

definition parse_query_params ::
  "builtins \<Rightarrow> ('e, 'n, 'w) filter_parser \<Rightarrow> query_params \<Rightarrow> 'w
     \<Rightarrow> ('e error + 'n ODataQueryOptions) \<times> 'w" where
  "parse_query_params py fp query_params w = params_loop py fp query_params default_options w"

text \<open>
  \<open>parse_qs\<close> and \<open>urlparse\<close> come from \<open>urllib.parse\<close>; both are parameters.
  \<open>urlparse\<close> returns a six-field result or raises \<open>ValueError\<close> with a message.
\<close>

record ParseResult =
  scheme :: string
  netloc :: string
  path :: string
  params :: string
  query :: string
  fragment :: string

definition parse_query_string ::
  "builtins \<Rightarrow> (string \<Rightarrow> query_params) \<Rightarrow> ('e, 'n, 'w) filter_parser \<Rightarrow> string \<Rightarrow> 'w
     \<Rightarrow> ('e error + 'n ODataQueryOptions) \<times> 'w" where
  "parse_query_string py parse_qs fp query_string w =
     parse_query_params py fp (parse_qs query_string) w"

definition parse_url ::
  "builtins \<Rightarrow> (string \<Rightarrow> string + ParseResult) \<Rightarrow> (string \<Rightarrow> query_params)
     \<Rightarrow> ('e, 'n, 'w) filter_parser \<Rightarrow> string \<Rightarrow> 'w \<Rightarrow> ('e error + 'n ODataQueryOptions) \<times> 'w" where
  "parse_url py urlparse parse_qs fp url w =
     (case urlparse url of
        Inl msg \<Rightarrow> (Inl (ValueError msg), w)
      | Inr parsed_url \<Rightarrow> parse_query_string py parse_qs fp (query parsed_url) w)"

text \<open>
  The filter parser with a log: every call appends its argument to the log, so the log
  after a run lists the calls that were made, in order.
\<close>

definition logged :: "(string \<Rightarrow> 'e + 'n) \<Rightarrow> ('e, 'n, string list) filter_parser" where
  "logged f value log = (f value, log @ [value])"

section \<open>The two functions of \<open>urllib.parse\<close>, for concrete runs\<close>

text \<open>
  The theorems about \<open>parse_url\<close> and \<open>parse_query_string\<close> hold for every
  \<open>urlparse\<close> and \<open>parse_qs\<close>.  To run the entry points on a concrete URL, the two
  library functions are written out here for ASCII input: \<open>parse_qs\<close> with its default
  arguments (pairs separated by \<open>&\<close>, blank values dropped, \<open>+\<close> and percent escapes
  decoded), \<open>urlparse\<close> as the splitting into six components with the bracket check of
  the network location.  Decoding of escapes that are not valid UTF-8 and the checks
  on an IPv6 host are left out.
\<close>

definition is_alpha :: "char \<Rightarrow> bool" where
  "is_alpha c = (let n = (of_char c :: nat) in (65 \<le> n \<and> n \<le> 90) \<or> (97 \<le> n \<and> n \<le> 122))"

definition is_hex :: "char \<Rightarrow> bool" where
  "is_hex c =
     (let n = (of_char c :: nat)
      in (48 \<le> n \<and> n \<le> 57) \<or> (65 \<le> n \<and> n \<le> 70) \<or> (97 \<le> n \<and> n \<le> 102))"

definition hex_val :: "char \<Rightarrow> nat" where
  "hex_val c =
     (let n = (of_char c :: nat) in if n \<le> 57 then n - 48 else if n \<le> 70 then n - 55 else n - 87)"

fun unquote :: "string \<Rightarrow> string" where
  "unquote (c # a # b # cs) =
     (if c = CHR ''%'' \<and> is_hex a \<and> is_hex b then char_of (16 * hex_val a + hex_val b) # unquote cs
      else c # unquote (a # b # cs))"
| "unquote cs = cs"

definition unquote_plus :: "string \<Rightarrow> string" where
  "unquote_plus s = unquote (map (\<lambda>c. if c = CHR ''+'' then CHR '' '' else c) s)"

definition parse_qsl_model :: "string \<Rightarrow> (string \<times> string) list" where
  "parse_qsl_model qs =
     concat (map (\<lambda>name_value.
                let name = takeWhile (\<lambda>c. c \<noteq> CHR ''='') name_value;
                    val = drop (Suc (length name)) name_value
                in if val \<noteq> [] then [(unquote_plus name, unquote_plus val)] else [])
             (split qs CHR ''&''))"

fun add_value :: "string \<Rightarrow> string \<Rightarrow> query_params \<Rightarrow> query_params" where
  "add_value name val [] = [(name, [Some val])]"
| "add_value name val ((k, vs) # rest) =
     (if k = name then (k, vs @ [Some val]) # rest else (k, vs) # add_value name val rest)"

definition parse_qs_model :: "string \<Rightarrow> query_params" where
  "parse_qs_model qs = foldl (\<lambda>d (name, val). add_value name val d) [] (parse_qsl_model qs)"

definition split_first :: "char \<Rightarrow> string \<Rightarrow> string \<times> string" where
  "split_first sep s = (takeWhile (\<lambda>c. c \<noteq> sep) s, drop 1 (dropWhile (\<lambda>c. c \<noteq> sep) s))"

definition uses_params :: "string list" where
  "uses_params = ['''', ''ftp'', ''hdl'', ''prospero'', ''http'', ''imap'', ''https'', ''shttp'',
     ''rtsp'', ''rtspu'', ''sip'', ''sips'', ''mms'', ''sftp'', ''tel'']"

definition is_scheme_char :: "char \<Rightarrow> bool" where
  "is_scheme_char c = (is_alpha c \<or> is_digit c \<or> c \<in> set ''+-.'')"

definition urlparse_model :: "string \<Rightarrow> string + ParseResult" where
  "urlparse_model url0 =
     (let url1 = filter (\<lambda>c. (of_char c :: nat) \<notin> {9, 10, 13})
                   (dropWhile (\<lambda>c. (of_char c :: nat) \<le> 32) url0);
          prefix = takeWhile (\<lambda>c. c \<noteq> CHR '':'') url1;
          has_scheme = (CHR '':'' \<in> set url1 \<and> prefix \<noteq> [] \<and> is_alpha (hd prefix)
                         \<and> list_all is_scheme_char prefix);
          scheme = (if has_scheme then lower prefix else []);
          url2 = (if has_scheme then drop (Suc (length prefix)) url1 else url1);
          has_netloc = (take 2 url2 = ''//'');
          netloc = (if has_netloc then takeWhile (\<lambda>c. c \<notin> set ''/?#'') (drop 2 url2) else []);
          url3 = (if has_netloc then dropWhile (\<lambda>c. c \<notin> set ''/?#'') (drop 2 url2) else url2);
          (url4, fragment) = split_first CHR ''#'' url3;
          (url5, query) = split_first CHR ''?'' url4;
          last_segment = rev (takeWhile (\<lambda>c. c \<noteq> CHR ''/'') (rev url5));
          has_params = (scheme \<in> set uses_params \<and> CHR '';'' \<in> set last_segment);
          path = (if has_params
                  then rev (dropWhile (\<lambda>c. c \<noteq> CHR ''/'') (rev url5))
                       @ takeWhile (\<lambda>c. c \<noteq> CHR '';'') last_segment
                  else url5);
          params = (if has_params then snd (split_first CHR '';'' last_segment) else [])
      in if has_netloc \<and> (CHR ''['' \<in> set netloc) \<noteq> (CHR '']'' \<in> set netloc)
         then Inl ''Invalid IPv6 URL''
         else Inr \<lparr>scheme = scheme, netloc = netloc, path = path, params = params,
                   query = query, fragment = fragment\<rparr>)"

section \<open>The filter language: data model\<close>

text \<open>
  \<^verbatim>\<open>query_parser.py\<close> imports \<open>ODataFilterParser\<close> and \<open>FilterNode\<close> from
  \<^verbatim>\<open>filter_parser.py\<close>, and the package exports a tokenizer from
  \<^verbatim>\<open>filter_tokenizer.py\<close>.  The definitions of this and the next three sections
  follow the specification of those two modules (its sections 3, 4, 7 and 8).
\<close>

text \<open>Modelled from the spec: the token kinds of \<^verbatim>\<open>filter_tokenizer.py\<close> (section 3, Token).\<close>

datatype TokenKind =
    Identifier | StringLiteral | NumberLiteral | BooleanLiteral | NullLiteral
  | Operator | LogicalKeyword | Function | LParen | RParen | Comma

text \<open>
  Modelled from the spec: the class \<open>Token\<close> of \<^verbatim>\<open>filter_tokenizer.py\<close>: kind, raw
  lexeme (the content, unescaped, for a string literal) and offset in the source string.
\<close>

record Token =
  kind :: TokenKind
  text' :: string
  position :: nat

text \<open>
  Modelled from the spec: the value of a \<open>Number\<close> literal, a decimal: the integer
  \<open>unscaled\<close> with \<open>scale\<close> digits after the point, so \<open>-12.50\<close> is
  \<open>Decimal (-1250) 2\<close>.
\<close>

datatype decimal = Decimal (unscaled: int) (scale: nat)

text \<open>Modelled from the spec: the tagged value \<open>Literal\<close> (section 3).\<close>

datatype Literal = String string | Number decimal | Boolean bool | Null

text \<open>Modelled from the spec: the comparison operators of a \<open>Comparison\<close> node.\<close>

datatype CompOp = Eq | Ne | Gt | Ge | Lt | Le

text \<open>Modelled from the spec: the operators of a \<open>Logical\<close> node.\<close>

datatype LogicalOp = And | Or

text \<open>Modelled from the spec: the operator of a \<open>Unary\<close> node, which is always \<open>not\<close>.\<close>

datatype UnaryOp = NotOp

text \<open>Modelled from the spec: the function names of a \<open>FunctionCall\<close> node.\<close>

datatype FuncName = Contains | StartsWith | EndsWith

text \<open>
  Modelled from the spec: the class \<open>FilterNode\<close> of \<^verbatim>\<open>filter_parser.py\<close>, as the
  tagged union of section 3.  A field path is the list of its segments.  There is no
  node for a parenthesized group.
\<close>

datatype FilterNode =
    Comparison "string list" CompOp Literal
  | Logical LogicalOp FilterNode FilterNode
  | Unary UnaryOp FilterNode
  | FunctionCall FuncName "string list" Literal

text \<open>
  Modelled from the spec: the two error kinds of section 7, each with its message and
  the source position; a syntax error at the end of the input has no position.
\<close>

datatype filter_error =
    LexError string nat
  | SyntaxError string "nat option"


section \<open>The tokenizer\<close>

text \<open>Modelled from the spec: the delimiter of string literals, the single quote.\<close>

definition quote :: char where
  "quote = CHR 0x27"

text \<open>
  Modelled from the spec: the characters of an identifier: letters, digits, underscore
  and the slash between navigation segments.
\<close>

definition is_ident_char :: "char \<Rightarrow> bool" where
  "is_ident_char c = (is_alpha c \<or> is_digit c \<or> c = CHR ''_'' \<or> c = CHR ''/'')"

text \<open>
  Modelled from the spec: the kind of a whole word.  Keywords are matched on the
  lower-cased word, literals first, and a word that is no keyword is an identifier.
\<close>

definition classify :: "string \<Rightarrow> TokenKind" where
  "classify word =
     (let w = lower word
      in if w \<in> set [''true'', ''false''] then BooleanLiteral
         else if w = ''null'' then NullLiteral
         else if w \<in> set [''and'', ''or'', ''not''] then LogicalKeyword
         else if w \<in> set [''eq'', ''ne'', ''gt'', ''ge'', ''lt'', ''le''] then Operator
         else if w \<in> set [''contains'', ''startswith'', ''endswith''] then Function
         else Identifier)"

text \<open>
  Modelled from the spec: the scan of a string literal after its opening quote.  A
  doubled quote is one quote of the value; a single one ends the literal.  The result
  is the value and the input after the closing quote, or \<open>None\<close> when the input ends
  first.
\<close>

fun lex_string :: "string \<Rightarrow> (string \<times> string) option" where
  "lex_string [] = None"
| "lex_string (c # cs) =
     (if c = quote then
        (case cs of
           [] \<Rightarrow> Some ([], [])
         | d # ds \<Rightarrow>
             if d = quote then map_option (\<lambda>(v, rest). (quote # v, rest)) (lex_string ds)
             else Some ([], cs))
      else map_option (\<lambda>(v, rest). (c # v, rest)) (lex_string cs))"

text \<open>
  Modelled from the spec: the scan of a numeric literal: an optional minus sign, digits,
  and optionally a point with digits after it.  The result is the sign, the digits
  before and after the point and the rest of the input, or \<open>None\<close> for a malformed
  numeral such as \<open>1.\<close> or a lone \<open>-\<close>.
\<close>

definition number_parts :: "string \<Rightarrow> (bool \<times> string \<times> string \<times> string) option" where
  "number_parts s =
     (let negative = (s \<noteq> [] \<and> hd s = CHR ''-'');
          s1 = (if negative then tl s else s);
          ip = takeWhile is_digit s1;
          r1 = dropWhile is_digit s1
      in if ip = [] then None
         else (case r1 of
                 [] \<Rightarrow> Some (negative, ip, [], [])
               | c # r2 \<Rightarrow>
                   if c = CHR ''.'' then
                     (let fp = takeWhile is_digit r2
                      in if fp = [] then None
                         else Some (negative, ip, fp, dropWhile is_digit r2))
                   else Some (negative, ip, [], r1)))"

text \<open>Modelled from the spec: the lexeme of a numeric literal and the input after it.\<close>

definition lex_number :: "string \<Rightarrow> (string \<times> string) option" where
  "lex_number s =
     (case number_parts s of
        None \<Rightarrow> None
      | Some (negative, ip, fp, rest) \<Rightarrow> Some (take (length s - length rest) s, rest))"

text \<open>Modelled from the spec: a token put before the tokens of the rest of the input.\<close>

definition cons_token :: "Token \<Rightarrow> filter_error + Token list \<Rightarrow> filter_error + Token list" where
  "cons_token t r = (case r of Inl e \<Rightarrow> Inl e | Inr ts \<Rightarrow> Inr (t # ts))"

lemma lex_string_shorter: "lex_string s = Some (v, rest) \<Longrightarrow> length rest < length s"
proof (induction s arbitrary: v rest rule: lex_string.induct)
  case 1
  then show ?case by simp
next
  case (2 c cs)
  then show ?case
    by (fastforce split: if_splits list.splits)
qed

lemma number_parts_sound:
  assumes "number_parts s = Some (negative, ip, fp, rest)"
  shows "s = (if negative then ''-'' else []) @ ip @ (if fp = [] then [] else CHR ''.'' # fp) @ rest"
    and "ip \<noteq> []"
proof -
  define s1 where "s1 = (if s \<noteq> [] \<and> hd s = CHR ''-'' then tl s else s)"
  define r1 where "r1 = dropWhile is_digit s1"
  from assms have neg: "negative = (s \<noteq> [] \<and> hd s = CHR ''-'')"
    and ip: "ip = takeWhile is_digit s1"
    by (auto simp: number_parts_def Let_def s1_def split: if_splits list.splits)
  from assms show "ip \<noteq> []"
    by (auto simp: number_parts_def Let_def split: if_splits list.splits)
  have s: "s = (if negative then ''-'' else []) @ s1"
    by (cases s) (auto simp: neg s1_def)
  have s1: "s1 = ip @ r1"
    by (simp add: ip r1_def)
  from assms have "r1 = (if fp = [] then [] else CHR ''.'' # fp) @ rest"
    unfolding number_parts_def Let_def s1_def [symmetric] r1_def [symmetric]
    by (cases r1) (auto split: if_splits simp: takeWhile_eq_Nil_iff)
  with s s1 show "s = (if negative then ''-'' else []) @ ip @ (if fp = [] then [] else CHR ''.'' # fp) @ rest"
    by simp
qed

lemma number_parts_shorter:
  "number_parts s = Some (negative, ip, fp, rest) \<Longrightarrow> length rest < length s"
  using number_parts_sound [of s negative ip fp rest]
  by (cases ip) (auto dest: arg_cong [where f = length])

lemma lex_number_shorter: "lex_number s = Some (tx, rest) \<Longrightarrow> length rest < length s"
  by (auto simp: lex_number_def split: option.splits dest: number_parts_shorter)

text \<open>
  Modelled from the spec: the tokenizer of \<^verbatim>\<open>filter_tokenizer.py\<close>, one pass from
  left to right, the first argument being the offset of the next character.
  Whitespace separates tokens; a quote starts a string literal, a digit or a minus sign
  a numeric literal, any other identifier character a word, taken as long as it goes;
  every other character is a lexical error.
\<close>

function tokenize_from :: "nat \<Rightarrow> string \<Rightarrow> filter_error + Token list" where
  "tokenize_from pos [] = Inr []"
| "tokenize_from pos (c # cs) =
     (if is_space c then tokenize_from (pos + 1) cs
      else if c = CHR ''('' then
        cons_token \<lparr>kind = LParen, text' = [c], position = pos\<rparr> (tokenize_from (pos + 1) cs)
      else if c = CHR '')'' then
        cons_token \<lparr>kind = RParen, text' = [c], position = pos\<rparr> (tokenize_from (pos + 1) cs)
      else if c = CHR '','' then
        cons_token \<lparr>kind = Comma, text' = [c], position = pos\<rparr> (tokenize_from (pos + 1) cs)
      else if c = quote then
        (case lex_string cs of
           None \<Rightarrow> Inl (LexError ''unterminated string literal'' pos)
         | Some (v, rest) \<Rightarrow>
             cons_token \<lparr>kind = StringLiteral, text' = v, position = pos\<rparr>
               (tokenize_from (pos + (length (c # cs) - length rest)) rest))
      else if is_digit c \<or> c = CHR ''-'' then
        (case lex_number (c # cs) of
           None \<Rightarrow> Inl (LexError ''invalid number'' pos)
         | Some (tx, rest) \<Rightarrow>
             cons_token \<lparr>kind = NumberLiteral, text' = tx, position = pos\<rparr>
               (tokenize_from (pos + length tx) rest))
      else if is_ident_char c then
        (let word = c # takeWhile is_ident_char cs
         in cons_token \<lparr>kind = classify word, text' = word, position = pos\<rparr>
              (tokenize_from (pos + length word) (dropWhile is_ident_char cs)))
      else Inl (LexError ''unrecognized character'' pos))"
  by pat_completeness auto
termination
proof (relation "measure (\<lambda>(pos, s). length s)")
qed (auto dest: lex_string_shorter lex_number_shorter
      intro: le_imp_less_Suc length_dropWhile_le)

text \<open>Modelled from the spec: \<open>tokenize(input)\<close>, the tokenizer from offset 0.\<close>

definition tokenize :: "string \<Rightarrow> filter_error + Token list" where
  "tokenize s = tokenize_from 0 s"


section \<open>The parser\<close>

text \<open>Modelled from the spec: the number a string of decimal digits denotes.\<close>

definition nat_of_digits :: "string \<Rightarrow> nat" where
  "nat_of_digits ds = foldl (\<lambda>n c. 10 * n + digit_val c) 0 ds"

text \<open>
  Modelled from the spec: the decimal value of the lexeme of a numeric literal; \<open>None\<close>
  when the text is no numeral.
\<close>

definition decimal_of_text :: "string \<Rightarrow> decimal option" where
  "decimal_of_text tx =
     (case number_parts tx of
        Some (negative, ip, fp, []) \<Rightarrow>
          Some (Decimal ((if negative then - 1 else 1) * int (nat_of_digits (ip @ fp))) (length fp))
      | _ \<Rightarrow> None)"

text \<open>Modelled from the spec: the comparison operator an operator keyword stands for.\<close>

definition comparison_op_of :: "string \<Rightarrow> CompOp option" where
  "comparison_op_of tx =
     map_of [(''eq'', Eq), (''ne'', Ne), (''gt'', Gt), (''ge'', Ge), (''lt'', Lt), (''le'', Le)]
       (lower tx)"

text \<open>Modelled from the spec: the supported function a function keyword stands for.\<close>

definition function_name_of :: "string \<Rightarrow> FuncName option" where
  "function_name_of tx =
     map_of [(''contains'', Contains), (''startswith'', StartsWith), (''endswith'', EndsWith)]
       (lower tx)"

text \<open>Modelled from the spec: the syntax error for an input that ends too early.\<close>

definition unexpected_end :: filter_error where
  "unexpected_end = SyntaxError ''unexpected end of input'' None"

text \<open>Modelled from the spec: a syntax error reported at the position of a token.\<close>

definition syntax_error_at :: "string \<Rightarrow> Token \<Rightarrow> filter_error" where
  "syntax_error_at msg t = SyntaxError msg (Some (position t))"

text \<open>
  Modelled from the spec: the next token, which must be of the given kind; any other
  token is a syntax error with the given message.
\<close>

definition expect :: "TokenKind \<Rightarrow> string \<Rightarrow> Token list \<Rightarrow> filter_error + Token \<times> Token list" where
  "expect k msg ts =
     (case ts of
        [] \<Rightarrow> Inl unexpected_end
      | t # rest \<Rightarrow> if kind t = k then Inr (t, rest) else Inl (syntax_error_at msg t))"

text \<open>
  Modelled from the spec: the field path of an identifier token, its text split at the
  slashes; every segment must be a name, so an empty segment is a syntax error.
\<close>

definition field_path_of :: "Token \<Rightarrow> filter_error + string list" where
  "field_path_of t =
     (let segments = split (text' t) CHR ''/''
      in if [] \<in> set segments then Inl (syntax_error_at ''empty segment in field path'' t)
         else Inr segments)"

text \<open>Modelled from the spec: the grammar rule \<open>literal\<close>: one token of a literal kind.\<close>

definition parse_literal :: "Token \<Rightarrow> filter_error + Literal" where
  "parse_literal t =
     (case kind t of
        StringLiteral \<Rightarrow> Inr (String (text' t))
      | NumberLiteral \<Rightarrow>
          (case decimal_of_text (text' t) of
             None \<Rightarrow> Inl (syntax_error_at ''malformed number'' t)
           | Some d \<Rightarrow> Inr (Number d))
      | BooleanLiteral \<Rightarrow>
          (if lower (text' t) = ''true'' then Inr (Boolean True)
           else if lower (text' t) = ''false'' then Inr (Boolean False)
           else Inl (syntax_error_at ''malformed boolean'' t))
      | NullLiteral \<Rightarrow> Inr Null
      | _ \<Rightarrow> Inl (syntax_error_at ''expected a literal'' t))"

text \<open>
  Modelled from the spec: the grammar rule \<open>comparison\<close>, after its identifier token:
  field path, comparison operator, literal.
\<close>

definition parse_comparison :: "Token \<Rightarrow> Token list \<Rightarrow> filter_error + FilterNode \<times> Token list" where
  "parse_comparison ident rest =
     (case field_path_of ident of
        Inl e \<Rightarrow> Inl e
      | Inr field_path \<Rightarrow>
          (case expect Operator ''expected a comparison operator'' rest of
             Inl e \<Rightarrow> Inl e
           | Inr (op_tok, rest1) \<Rightarrow>
               (case comparison_op_of (text' op_tok) of
                  None \<Rightarrow> Inl (syntax_error_at ''unsupported operator'' op_tok)
                | Some op \<Rightarrow>
                    (case rest1 of
                       [] \<Rightarrow> Inl unexpected_end
                     | lit_tok # rest2 \<Rightarrow>
                         (case parse_literal lit_tok of
                            Inl e \<Rightarrow> Inl e
                          | Inr lit \<Rightarrow> Inr (Comparison field_path op lit, rest2))))))"

text \<open>
  Modelled from the spec: the grammar rule \<open>function_call\<close>, after its function token:
  an opening parenthesis, a field path, a comma, a string literal and the closing
  parenthesis.  Another number of arguments or a literal of another type is a syntax
  error.
\<close>

definition parse_function_call :: "Token \<Rightarrow> Token list \<Rightarrow> filter_error + FilterNode \<times> Token list" where
  "parse_function_call func rest =
     (case function_name_of (text' func) of
        None \<Rightarrow> Inl (syntax_error_at ''unsupported function'' func)
      | Some name \<Rightarrow>
          (case expect LParen ''expected ( after the function name'' rest of
             Inl e \<Rightarrow> Inl e
           | Inr (_, rest1) \<Rightarrow>
               (case expect Identifier ''expected a field path as first argument'' rest1 of
                  Inl e \<Rightarrow> Inl e
                | Inr (ident, rest2) \<Rightarrow>
                    (case field_path_of ident of
                       Inl e \<Rightarrow> Inl e
                     | Inr field_path \<Rightarrow>
                         (case expect Comma (lower (text' func) @ '' takes exactly 2 arguments'') rest2 of
                            Inl e \<Rightarrow> Inl e
                          | Inr (_, rest3) \<Rightarrow>
                              (case rest3 of
                                 [] \<Rightarrow> Inl unexpected_end
                               | lit_tok # rest4 \<Rightarrow>
                                   (case parse_literal lit_tok of
                                      Inl e \<Rightarrow> Inl e
                                    | Inr lit \<Rightarrow>
                                        (case lit of
                                           String _ \<Rightarrow>
                                             (case expect RParen (lower (text' func) @ '' takes exactly 2 arguments'') rest4 of
                                                Inl e \<Rightarrow> Inl e
                                              | Inr (_, rest5) \<Rightarrow> Inr (FunctionCall name field_path lit, rest5))
                                         | _ \<Rightarrow> Inl (syntax_error_at ''expected a string literal'' lit_tok)))))))))"

text \<open>Modelled from the spec: whether a token is the given logical keyword.\<close>

definition is_keyword :: "string \<Rightarrow> Token \<Rightarrow> bool" where
  "is_keyword w t = (kind t = LogicalKeyword \<and> lower (text' t) = w)"

text \<open>
  Modelled from the spec: the recursive-descent parser of \<^verbatim>\<open>filter_parser.py\<close>, one
  function for each rule of the grammar of section 4.2 and one for each of its two
  repetitions.  Every function returns the node it has built and the tokens it has
  not read, or the syntax error.
\<close>

function (sequential)
      parse_or :: "Token list \<Rightarrow> filter_error + FilterNode \<times> Token list"
  and or_loop :: "FilterNode \<Rightarrow> Token list \<Rightarrow> filter_error + FilterNode \<times> Token list"
  and parse_and :: "Token list \<Rightarrow> filter_error + FilterNode \<times> Token list"
  and and_loop :: "FilterNode \<Rightarrow> Token list \<Rightarrow> filter_error + FilterNode \<times> Token list"
  and parse_unary :: "Token list \<Rightarrow> filter_error + FilterNode \<times> Token list"
  and parse_primary :: "Token list \<Rightarrow> filter_error + FilterNode \<times> Token list"
where
  "parse_or ts =
     (case parse_and ts of
        Inl e \<Rightarrow> Inl e
      | Inr (left, rest) \<Rightarrow> or_loop left rest)"
| "or_loop left [] = Inr (left, [])"
| "or_loop left (t # rest) =
     (if is_keyword ''or'' t then
        (case parse_and rest of
           Inl e \<Rightarrow> Inl e
         | Inr (right, rest') \<Rightarrow> or_loop (Logical Or left right) rest')
      else Inr (left, t # rest))"
| "parse_and ts =
     (case parse_unary ts of
        Inl e \<Rightarrow> Inl e
      | Inr (left, rest) \<Rightarrow> and_loop left rest)"
| "and_loop left [] = Inr (left, [])"
| "and_loop left (t # rest) =
     (if is_keyword ''and'' t then
        (case parse_unary rest of
           Inl e \<Rightarrow> Inl e
         | Inr (right, rest') \<Rightarrow> and_loop (Logical And left right) rest')
      else Inr (left, t # rest))"
| "parse_unary [] = Inl unexpected_end"
| "parse_unary (t # rest) =
     (if is_keyword ''not'' t then
        (case parse_unary rest of
           Inl e \<Rightarrow> Inl e
         | Inr (operand, rest') \<Rightarrow> Inr (Unary NotOp operand, rest'))
      else parse_primary (t # rest))"
| "parse_primary [] = Inl unexpected_end"
| "parse_primary (t # rest) =
     (case kind t of
        LParen \<Rightarrow>
          (case parse_or rest of
             Inl e \<Rightarrow> Inl e
           | Inr (node, rest') \<Rightarrow>
               (case rest' of
                  [] \<Rightarrow> Inl (syntax_error_at ''unmatched parenthesis'' t)
                | t' # rest'' \<Rightarrow>
                    if kind t' = RParen then Inr (node, rest'')
                    else Inl (syntax_error_at ''expected )'' t')))
      | Function \<Rightarrow> parse_function_call t rest
      | Identifier \<Rightarrow>
          (case rest of
             [] \<Rightarrow> parse_comparison t rest
           | t' # _ \<Rightarrow>
               if kind t' = LParen then Inl (syntax_error_at ''unsupported function'' t)
               else parse_comparison t rest)
      | _ \<Rightarrow> Inl (syntax_error_at ''unexpected token'' t))"
  by pat_completeness auto

abbreviation parser_dom where
  "parser_dom \<equiv> parse_or_or_loop_parse_and_and_loop_parse_unary_parse_primary_dom"

lemma expect_rest: "expect k msg ts = Inr (t, rest) \<Longrightarrow> ts = t # rest"
  by (auto simp: expect_def split: list.splits if_splits)

lemma parse_comparison_rest:
  "parse_comparison ident ts = Inr (node, rest) \<Longrightarrow> length rest < length ts"
  by (auto simp: parse_comparison_def split: sum.splits option.splits list.splits
      dest!: expect_rest)

lemma parse_function_call_rest:
  "parse_function_call func ts = Inr (node, rest) \<Longrightarrow> length rest < length ts"
  by (auto simp: parse_function_call_def
      split: sum.splits option.splits list.splits Literal.splits
      dest!: expect_rest)

lemma parser_rest_partial:
  shows "parser_dom (Inl (Inl ts)) \<Longrightarrow> parse_or ts = Inr (node, r) \<Longrightarrow> length r \<le> length ts"
    and "parser_dom (Inl (Inr (Inl (left, ts)))) \<Longrightarrow> or_loop left ts = Inr (node, r) \<Longrightarrow> length r \<le> length ts"
    and "parser_dom (Inl (Inr (Inr ts))) \<Longrightarrow> parse_and ts = Inr (node, r) \<Longrightarrow> length r \<le> length ts"
    and "parser_dom (Inr (Inl (left, ts))) \<Longrightarrow> and_loop left ts = Inr (node, r) \<Longrightarrow> length r \<le> length ts"
    and "parser_dom (Inr (Inr (Inl ts))) \<Longrightarrow> parse_unary ts = Inr (node, r) \<Longrightarrow> length r \<le> length ts"
    and "parser_dom (Inr (Inr (Inr ts))) \<Longrightarrow> parse_primary ts = Inr (node, r) \<Longrightarrow> length r \<le> length ts"
proof (induction ts and left ts and ts and left ts and ts and ts arbitrary: node r and node r and node r and node r and node r and node r
    rule: parse_or_or_loop_parse_and_and_loop_parse_unary_parse_primary.pinduct)
  case (1 ts)
  from "1.prems" obtain l r1 where a: "parse_and ts = Inr (l, r1)" and b: "or_loop l r1 = Inr (node, r)"
    by (auto simp: parse_or.psimps [OF "1.hyps"] split: sum.splits)
  from "1.IH"(1) [OF a] "1.IH"(2) [OF a refl b] show ?case by simp
next
  case (2 left)
  then show ?case by (simp add: or_loop.psimps)
next
  case (3 left t rest)
  show ?case
  proof (cases "is_keyword ''or'' t")
    case True
    with "3.prems" obtain x r1 where a: "parse_and rest = Inr (x, r1)"
      and b: "or_loop (Logical Or left x) r1 = Inr (node, r)"
      by (auto simp: or_loop.psimps(2) [OF "3.hyps"] split: sum.splits)
    from "3.IH"(1) [OF True a] "3.IH"(2) [OF True a refl b] show ?thesis by simp
  next
    case False
    with "3.prems" show ?thesis by (simp add: or_loop.psimps(2) [OF "3.hyps"])
  qed
next
  case (4 ts)
  from "4.prems" obtain l r1 where a: "parse_unary ts = Inr (l, r1)" and b: "and_loop l r1 = Inr (node, r)"
    by (auto simp: parse_and.psimps [OF "4.hyps"] split: sum.splits)
  from "4.IH"(1) [OF a] "4.IH"(2) [OF a refl b] show ?case by simp
next
  case (5 left)
  then show ?case by (simp add: and_loop.psimps)
next
  case (6 left t rest)
  show ?case
  proof (cases "is_keyword ''and'' t")
    case True
    with "6.prems" obtain x r1 where a: "parse_unary rest = Inr (x, r1)"
      and b: "and_loop (Logical And left x) r1 = Inr (node, r)"
      by (auto simp: and_loop.psimps(2) [OF "6.hyps"] split: sum.splits)
    from "6.IH"(1) [OF True a] "6.IH"(2) [OF True a refl b] show ?thesis by simp
  next
    case False
    with "6.prems" show ?thesis by (simp add: and_loop.psimps(2) [OF "6.hyps"])
  qed
next
  case 7
  then show ?case by (simp add: parse_unary.psimps)
next
  case (8 t rest)
  show ?case
  proof (cases "is_keyword ''not'' t")
    case True
    with "8.prems" obtain x where a: "parse_unary rest = Inr (x, r)"
      by (auto simp: parse_unary.psimps(2) [OF "8.hyps"] split: sum.splits)
    from "8.IH"(1) [OF True a] show ?thesis by simp
  next
    case False
    with "8.prems" have "parse_primary (t # rest) = Inr (node, r)"
      by (simp add: parse_unary.psimps(2) [OF "8.hyps"])
    from "8.IH"(2) [OF False this] show ?thesis .
  qed
next
  case 9
  then show ?case by (simp add: parse_primary.psimps)
next
  case (10 t rest)
  show ?case
  proof (cases "kind t = LParen")
    case True
    with "10.prems" obtain r1 where a: "parse_or rest = Inr (node, r1)" and b: "length r < length r1"
      by (auto simp: parse_primary.psimps(2) [OF "10.hyps"] split: sum.splits list.splits if_splits)
    from "10.IH" [OF True a] b show ?thesis by simp
  next
    case False
    with "10.prems" show ?thesis
      by (auto simp: parse_primary.psimps(2) [OF "10.hyps"]
          split: TokenKind.splits list.splits if_splits
          dest!: parse_comparison_rest parse_function_call_rest)
  qed
qed

termination parse_or
proof (relation "measure (\<lambda>x. case x of
      Inl (Inl ts) \<Rightarrow> 6 * length ts + 5
    | Inl (Inr (Inl (left, ts))) \<Rightarrow> 6 * length ts + 4
    | Inl (Inr (Inr ts)) \<Rightarrow> 6 * length ts + 3
    | Inr (Inl (left, ts)) \<Rightarrow> 6 * length ts + 2
    | Inr (Inr (Inl ts)) \<Rightarrow> 6 * length ts + 1
    | Inr (Inr (Inr ts)) \<Rightarrow> 6 * length ts)")
qed (auto dest: parser_rest_partial)

text \<open>
  Modelled from the spec: \<open>parse(tokens)\<close> of \<^verbatim>\<open>filter_parser.py\<close>: an expression
  that uses up all the tokens.  No token at all and a token left over are syntax errors.
\<close>

definition parse :: "Token list \<Rightarrow> filter_error + FilterNode" where
  "parse tokens =
     (case tokens of
        [] \<Rightarrow> Inl (SyntaxError ''empty filter expression'' None)
      | _ # _ \<Rightarrow>
          (case parse_or tokens of
             Inl e \<Rightarrow> Inl e
           | Inr (node, rest) \<Rightarrow>
               (case rest of
                  [] \<Rightarrow> Inr node
                | t # _ \<Rightarrow> Inl (syntax_error_at ''unexpected token after the expression'' t))))"

text \<open>
  Modelled from the spec: \<open>parse(tokenize(s))\<close>, what \<open>ODataFilterParser.parse\<close> does
  with the value of \<open>$filter\<close>.
\<close>

definition parse_string :: "string \<Rightarrow> filter_error + FilterNode" where
  "parse_string s = (case tokenize s of Inl e \<Rightarrow> Inl e | Inr tokens \<Rightarrow> parse tokens)"


section \<open>The pretty-printer\<close>

text \<open>
  Section 8 of the specification states its round-trip properties against a
  pretty-printer, the in-order reconstruction of the text of a tree.  The tree keeps no
  parentheses, so the printer writes them where an operand binds less tightly than
  the place it stands in: an \<open>or\<close> under an \<open>and\<close> or a \<open>not\<close>, an \<open>and\<close> under a
  \<open>not\<close>, and a right operand with the operator of its parent.
\<close>

text \<open>Modelled from the spec: the character of a decimal digit.\<close>

definition digit_char :: "nat \<Rightarrow> char" where
  "digit_char d = char_of (48 + d)"

text \<open>Modelled from the spec: the decimal digits of a natural number, without leading zeros.\<close>

fun digits_of_nat :: "nat \<Rightarrow> string" where
  "digits_of_nat n = (if n < 10 then [digit_char n] else digits_of_nat (n div 10) @ [digit_char (n mod 10)])"

declare digits_of_nat.simps [simp del]

text \<open>
  Modelled from the spec: the text of a decimal: the sign, the digits, padded with zeros
  so that one digit stands before the point, and the point before the last \<open>scale\<close>
  digits.
\<close>

definition show_decimal :: "decimal \<Rightarrow> string" where
  "show_decimal d =
     (let ds = digits_of_nat (nat \<bar>unscaled d\<bar>);
          padded = replicate (Suc (scale d) - length ds) CHR ''0'' @ ds;
          k = length padded - scale d
      in (if unscaled d < 0 then ''-'' else []) @ take k padded
         @ (if scale d = 0 then [] else CHR ''.'' # drop k padded))"

text \<open>Modelled from the spec: the content of a string literal, every quote doubled.\<close>

definition escape :: "string \<Rightarrow> string" where
  "escape s = concat (map (\<lambda>c. if c = quote then [quote, quote] else [c]) s)"

text \<open>Modelled from the spec: a token without its position: kind and text.\<close>

type_synonym lexeme = "TokenKind \<times> string"

definition lexeme_of :: "Token \<Rightarrow> lexeme" where
  "lexeme_of t = (kind t, text' t)"

text \<open>Modelled from the spec: a field path as text, its segments joined by slashes.\<close>

fun join_path :: "string list \<Rightarrow> string" where
  "join_path [] = []"
| "join_path [segment] = segment"
| "join_path (segment # segments) = segment @ CHR ''/'' # join_path segments"

text \<open>Modelled from the spec: the keyword of a comparison operator.\<close>

fun comparison_op_text :: "CompOp \<Rightarrow> string" where
  "comparison_op_text Eq = ''eq''"
| "comparison_op_text Ne = ''ne''"
| "comparison_op_text Gt = ''gt''"
| "comparison_op_text Ge = ''ge''"
| "comparison_op_text Lt = ''lt''"
| "comparison_op_text Le = ''le''"

text \<open>Modelled from the spec: the keyword of a function.\<close>

fun function_name_text :: "FuncName \<Rightarrow> string" where
  "function_name_text Contains = ''contains''"
| "function_name_text StartsWith = ''startswith''"
| "function_name_text EndsWith = ''endswith''"

text \<open>Modelled from the spec: the token that denotes a literal.\<close>

fun literal_lexeme :: "Literal \<Rightarrow> lexeme" where
  "literal_lexeme (String s) = (StringLiteral, s)"
| "literal_lexeme (Number d) = (NumberLiteral, show_decimal d)"
| "literal_lexeme (Boolean b) = (BooleanLiteral, if b then ''true'' else ''false'')"
| "literal_lexeme Null = (NullLiteral, ''null'')"

text \<open>Modelled from the spec: a token sequence, in parentheses when the flag is set.\<close>

definition parenthesized :: "bool \<Rightarrow> lexeme list \<Rightarrow> lexeme list" where
  "parenthesized b ls = (if b then (LParen, ''('') # ls @ [(RParen, '')'')] else ls)"

text \<open>
  Modelled from the spec: the in-order token sequence of a tree that stands as an operand
  of level 0 (\<open>or_expr\<close>), 1 (\<open>and_expr\<close>) or 2 (\<open>unary_expr\<close>) of the grammar.
\<close>

fun tokens_at :: "nat \<Rightarrow> FilterNode \<Rightarrow> lexeme list" where
  "tokens_at level (Logical Or left right) =
     parenthesized (0 < level) (tokens_at 0 left @ (LogicalKeyword, ''or'') # tokens_at 1 right)"
| "tokens_at level (Logical And left right) =
     parenthesized (1 < level) (tokens_at 1 left @ (LogicalKeyword, ''and'') # tokens_at 2 right)"
| "tokens_at level (Unary NotOp operand) = (LogicalKeyword, ''not'') # tokens_at 2 operand"
| "tokens_at level (Comparison field_path op lit) =
     [(Identifier, join_path field_path), (Operator, comparison_op_text op), literal_lexeme lit]"
| "tokens_at level (FunctionCall name field_path lit) =
     [(Function, function_name_text name), (LParen, ''(''), (Identifier, join_path field_path),
      (Comma, '',''), literal_lexeme lit, (RParen, '')'')]"

text \<open>
  Modelled from the spec: the source text of a token: a string literal in quotes with its
  quotes doubled, every other token as its text.
\<close>

fun lexeme_text :: "lexeme \<Rightarrow> string" where
  "lexeme_text (StringLiteral, s) = quote # escape s @ [quote]"
| "lexeme_text (_, tx) = tx"

text \<open>
  Modelled from the spec: where the printer leaves out the blank between two tokens:
  inside parentheses, around a comma, and after a function name.
\<close>

definition glued :: "lexeme \<Rightarrow> lexeme \<Rightarrow> bool" where
  "glued a b =
     (fst a = LParen \<or> fst a = Comma \<or> fst b = RParen \<or> fst b = Comma
      \<or> (fst a = Function \<and> fst b = LParen))"

text \<open>Modelled from the spec: the text of a token sequence.\<close>

fun render :: "lexeme list \<Rightarrow> string" where
  "render [] = []"
| "render [a] = lexeme_text a"
| "render (a # b # ls) =
     lexeme_text a @ (if glued a b then [] else '' '') @ render (b # ls)"

text \<open>Modelled from the spec: the text of a tree that stands as an operand of a level.\<close>

definition pretty_at :: "nat \<Rightarrow> FilterNode \<Rightarrow> string" where
  "pretty_at level node = render (tokens_at level node)"

text \<open>Modelled from the spec: the pretty-printed form of a tree.\<close>

definition pretty :: "FilterNode \<Rightarrow> string" where
  "pretty node = pretty_at 0 node"


section \<open>Predicates used in the statements\<close>

subsection \<open>Query parameters\<close>

definition has_value :: "query_params \<Rightarrow> string \<Rightarrow> bool" where
  \<comment> \<open>the mapping has the key with a non-empty list of values\<close>
  "has_value query_params param = list_ex (\<lambda>(k, values). k = param \<and> values \<noteq> []) query_params"

definition relevant :: "string \<times> string option list \<Rightarrow> bool" where
  \<comment> \<open>an item with a supported key and a first value that is not \<open>None\<close>\<close>
  "relevant entry =
     (fst entry \<in> set [''$count'', ''$expand'', ''$filter'', ''$format'', ''$orderby'',
                        ''$search'', ''$select'', ''$skip'', ''$top'']
      \<and> first_value (snd entry) \<noteq> None)"

definition first_only :: "string \<times> string option list \<Rightarrow> string \<times> string option list" where
  \<comment> \<open>an item with every value after the first one dropped\<close>
  "first_only entry = (fst entry, take 1 (snd entry))"

definition raises :: "builtins \<Rightarrow> string \<Rightarrow> string option list \<Rightarrow> bool" where
  \<comment> \<open>the handler of an option other than \<open>$filter\<close> raises on the first value of the list:
      \<open>_parse_format\<close> on a value outside the four formats, \<open>_parse_skip\<close> and \<open>_parse_top\<close>
      when \<open>int\<close> raises or returns a negative number\<close>
  "raises py param values =
     (case first_value values of
        None \<Rightarrow> False
      | Some value \<Rightarrow>
          (param = ''$format'' \<and> value \<notin> set [''json'', ''xml'', ''csv'', ''tsv''])
        \<or> ((param = ''$skip'' \<or> param = ''$top'')
            \<and> (case int_of_str py value of None \<Rightarrow> True | Some n \<Rightarrow> n < 0)))"

definition unchanged :: "string \<Rightarrow> 'n ODataQueryOptions \<Rightarrow> 'n ODataQueryOptions \<Rightarrow> bool" where
  \<comment> \<open>the field that belongs to the key has the same value in both records\<close>
  "unchanged param options options' =
     ((param = ''$count'' \<longrightarrow> count options' = count options)
    \<and> (param = ''$expand'' \<longrightarrow> expand options' = expand options)
    \<and> (param = ''$filter'' \<longrightarrow> filter' options' = filter' options)
    \<and> (param = ''$format'' \<longrightarrow> format' options' = format' options)
    \<and> (param = ''$orderby'' \<longrightarrow> orderby options' = orderby options)
    \<and> (param = ''$search'' \<longrightarrow> search options' = search options)
    \<and> (param = ''$select'' \<longrightarrow> select options' = select options)
    \<and> (param = ''$skip'' \<longrightarrow> skip options' = skip options)
    \<and> (param = ''$top'' \<longrightarrow> top' options' = top' options))"

subsection \<open>Tokens and trees\<close>

definition is_word :: "string \<Rightarrow> bool" where
  \<comment> \<open>a non-empty run of identifier characters that does not start with a digit\<close>
  "is_word tx = (tx \<noteq> [] \<and> list_all is_ident_char tx \<and> \<not> is_digit (hd tx))"

fun wf_lexeme :: "lexeme \<Rightarrow> bool" where
  \<comment> \<open>kind and text are those of a token the tokenizer can produce\<close>
  "wf_lexeme (StringLiteral, s) = True"
| "wf_lexeme (NumberLiteral, tx) = (decimal_of_text tx \<noteq> None)"
| "wf_lexeme (LParen, tx) = (tx = ''('')"
| "wf_lexeme (RParen, tx) = (tx = '')'')"
| "wf_lexeme (Comma, tx) = (tx = '','')"
| "wf_lexeme (k, tx) = (is_word tx \<and> classify tx = k)"

definition delimited :: "lexeme \<Rightarrow> string \<Rightarrow> bool" where
  \<comment> \<open>the text after a token cannot be taken for a part of it\<close>
  "delimited a rest =
     (fst a \<in> {LParen, RParen, Comma} \<or> rest = [] \<or> hd rest \<in> set '' (),'')"

definition wf_path :: "string list \<Rightarrow> bool" where
  \<comment> \<open>the segments of one identifier token: none empty, none with a slash\<close>
  "wf_path field_path =
     (field_path \<noteq> [] \<and> [] \<notin> set field_path
      \<and> list_all (\<lambda>segment. CHR ''/'' \<notin> set segment) field_path
      \<and> wf_lexeme (Identifier, join_path field_path))"

fun wf_node :: "FilterNode \<Rightarrow> bool" where
  \<comment> \<open>a tree of the shape the parser builds from the tokenizer's tokens\<close>
  "wf_node (Comparison field_path op lit) = wf_path field_path"
| "wf_node (FunctionCall name field_path lit) =
     (wf_path field_path \<and> (case lit of String _ \<Rightarrow> True | _ \<Rightarrow> False))"
| "wf_node (Logical op left right) = (wf_node left \<and> wf_node right)"
| "wf_node (Unary op operand) = wf_node operand"

definition starts_with_keyword :: "string \<Rightarrow> Token list \<Rightarrow> bool" where
  "starts_with_keyword w ts = (case ts of [] \<Rightarrow> False | t # _ \<Rightarrow> is_keyword w t)"

definition complete_for :: "FilterNode \<Rightarrow> bool" where
  \<comment> \<open>the parser rebuilds the tree from its token sequence at each of the three levels\<close>
  "complete_for t =
     ((\<forall>ts rest. map lexeme_of ts = tokens_at 0 t \<longrightarrow> \<not> starts_with_keyword ''and'' rest
          \<longrightarrow> parse_or (ts @ rest) = or_loop t rest)
    \<and> (\<forall>ts rest. map lexeme_of ts = tokens_at 1 t \<longrightarrow> parse_and (ts @ rest) = and_loop t rest)
    \<and> (\<forall>ts rest. map lexeme_of ts = tokens_at 2 t \<longrightarrow> parse_unary (ts @ rest) = Inr (t, rest)))"

definition then_tokens :: "Token list \<Rightarrow> filter_error + Token list \<Rightarrow> filter_error + Token list" where
  "then_tokens ts r = (case r of Inl e \<Rightarrow> Inl e | Inr ts' \<Rightarrow> Inr (ts @ ts'))"

fun is_lex_error :: "filter_error \<Rightarrow> bool" where
  "is_lex_error (LexError _ _) = True"
| "is_lex_error (SyntaxError _ _) = False"


definition fails_with :: "(filter_error \<Rightarrow> bool) \<Rightarrow> filter_error + FilterNode \<Rightarrow> bool" where
  \<comment> \<open>the result is an error of the given kind\<close>
  "fails_with P r = (case r of Inl e \<Rightarrow> P e | Inr _ \<Rightarrow> False)"

abbreviation wf_tokens :: "Token list \<Rightarrow> bool" where
  "wf_tokens ts \<equiv> list_all (\<lambda>t. wf_lexeme (lexeme_of t)) ts"


section \<open>Lemmas about the query parser\<close>

lemma length_split_from: "length (split_from sep acc s) = Suc (count_list s sep)"
  by (induction s arbitrary: acc) auto

lemma length_split: "length (split s sep) = Suc (count_list s sep)"
  by (simp add: split_def length_split_from)

lemma orderby_item_keys: "map fst (orderby_item py x) = [''field'', ''direction'']"
  by (simp add: orderby_item_def Let_def)

lemma orderby_item_direction:
  "map_of (orderby_item py x) ''direction'' =
     Some (if endswith (str_lower py (str_strip py x)) '' asc'' then ''asc''
           else if endswith (str_lower py (str_strip py x)) '' desc'' then ''desc'' else ''asc'')"
  by (simp add: orderby_item_def Let_def)

lemma supported_keys:
  "map fst (supported_options py fp) =
     [''$count'', ''$expand'', ''$filter'', ''$format'', ''$orderby'',
      ''$search'', ''$select'', ''$skip'', ''$top'']"
  by (simp add: supported_options_def)

lemma lookup_None_iff:
  "map_of (supported_options py fp) param = None \<longleftrightarrow>
     param \<notin> set [''$count'', ''$expand'', ''$filter'', ''$format'', ''$orderby'',
                    ''$search'', ''$select'', ''$skip'', ''$top'']"
  by (simp only: map_of_eq_None_iff supported_keys set_map [symmetric])

lemma first_value_take: "first_value (take (Suc 0) values) = first_value values"
  by (cases "values") (simp_all add: first_value_def)

lemma first_only_pair: "first_only (param, values) = (param, take 1 values)"
  by (simp add: first_only_def)

lemma params_loop_first_only:
  "params_loop py fp (map first_only qp) options w = params_loop py fp qp options w"
proof (induction qp arbitrary: options w)
  case Nil
  show ?case by simp
next
  case (Cons entry qp)
  obtain param "values" where e: "entry = (param, values)" by (cases entry)
  show ?case
    by (simp add: e first_only_pair first_value_take Cons.IH
        split: option.splits prod.splits)
qed

lemma params_loop_relevant:
  "params_loop py fp (filter relevant qp) options w = params_loop py fp qp options w"
proof (induction qp arbitrary: options w)
  case Nil
  show ?case by simp
next
  case (Cons entry qp)
  obtain param "values" where e: "entry = (param, values)" by (cases entry)
  show ?case
  proof (cases "relevant entry")
    case True
    then show ?thesis
      by (simp add: e Cons.IH split: option.splits prod.splits)
  next
    case False
    then have "map_of (supported_options py fp) param = None \<or> first_value values = None"
      unfolding relevant_def e lookup_None_iff by auto
    with False show ?thesis
      by (auto simp add: e Cons.IH split: option.splits)
  qed
qed

lemma handler_frame:
  assumes "map_of (supported_options py fp) param = Some h"
    and "h v options w = ((None, options'), w')"
  shows "(param \<noteq> ''$count'' \<longrightarrow> count options' = count options)
       \<and> (param \<noteq> ''$expand'' \<longrightarrow> expand options' = expand options)
       \<and> (param \<noteq> ''$filter'' \<longrightarrow> filter' options' = filter' options)
       \<and> (param \<noteq> ''$format'' \<longrightarrow> format' options' = format' options)
       \<and> (param \<noteq> ''$orderby'' \<longrightarrow> orderby options' = orderby options)
       \<and> (param \<noteq> ''$search'' \<longrightarrow> search options' = search options)
       \<and> (param \<noteq> ''$select'' \<longrightarrow> select options' = select options)
       \<and> (param \<noteq> ''$skip'' \<longrightarrow> skip options' = skip options)
       \<and> (param \<noteq> ''$top'' \<longrightarrow> top' options' = top' options)"
  using assms
  by (auto simp: supported_options_def no_call_def parse_count_def parse_expand_def
      parse_filter_def parse_format_def parse_orderby_def parse_search_def parse_select_def
      parse_skip_def parse_top_def
      split: if_splits option.splits sum.splits prod.splits)

lemma unchanged_refl: "unchanged k options options"
  by (simp add: unchanged_def)

lemma unchanged_trans:
  "unchanged k a b \<Longrightarrow> unchanged k b c \<Longrightarrow> unchanged k a c"
  by (simp add: unchanged_def)

lemma handler_unchanged:
  assumes "map_of (supported_options py fp) param = Some h"
    and "h v options w = ((None, options'), w')"
    and "k \<noteq> param"
  shows "unchanged k options options'"
  using handler_frame [OF assms(1,2)] assms(3) by (auto simp: unchanged_def)

lemma has_value_Cons:
  "has_value ((param, values) # qp) k \<longleftrightarrow> (param = k \<and> values \<noteq> []) \<or> has_value qp k"
  by (auto simp: has_value_def)

lemma first_value_Some_nonempty: "first_value values = Some v \<Longrightarrow> values \<noteq> []"
  by (auto simp: first_value_def)

lemma params_loop_unchanged:
  assumes "params_loop py fp qp options w = (Inr options', w')"
    and "\<not> has_value qp k"
  shows "unchanged k options options'"
  using assms
proof (induction qp arbitrary: options w)
  case Nil
  then show ?case by (simp add: unchanged_refl)
next
  case (Cons entry qp)
  obtain param "values" where e: "entry = (param, values)" by (cases entry)
  from Cons.prems(2) have nk: "\<not> (param = k \<and> values \<noteq> [])" and nq: "\<not> has_value qp k"
    by (simp_all add: e has_value_Cons)
  show ?case
  proof (cases "map_of (supported_options py fp) param")
    case None
    with Cons.prems(1) have "params_loop py fp qp options w = (Inr options', w')"
      by (simp add: e)
    from Cons.IH [OF this nq] show ?thesis .
  next
    case (Some h)
    show ?thesis
    proof (cases "first_value values")
      case None
      with Some Cons.prems(1) have "params_loop py fp qp options w = (Inr options', w')"
        by (simp add: e)
      from Cons.IH [OF this nq] show ?thesis .
    next
      case (Some v)
      obtain r o1 w1 where h: "h v options w = ((r, o1), w1)"
        by (metis prod.exhaust)
      from Cons.prems(1) \<open>map_of (supported_options py fp) param = Some h\<close> Some h
      have r: "r = None" and rest: "params_loop py fp qp o1 w1 = (Inr options', w')"
        by (auto simp: e split: option.splits)
      from Some nk have "k \<noteq> param"
        by (auto dest: first_value_Some_nonempty)
      from handler_unchanged [OF \<open>map_of (supported_options py fp) param = Some h\<close> h [unfolded r] this]
      have "unchanged k options o1" .
      moreover from Cons.IH [OF rest nq] have "unchanged k o1 options'" .
      ultimately show ?thesis by (rule unchanged_trans)
    qed
  qed
qed

lemma raises_iff:
  assumes "map_of (supported_options py fp) param = Some h" and "param \<noteq> ''$filter''"
    and "first_value values = Some v"
  shows "(fst (fst (h v options w)) \<noteq> None) = raises py param values"
    and "snd (h v options w) = w"
    and "filter' (snd (fst (h v options w))) = filter' options"
  using assms
  by (auto simp: supported_options_def no_call_def parse_count_def parse_expand_def
      parse_format_def parse_orderby_def parse_search_def parse_select_def
      parse_skip_def parse_top_def raises_def
      split: if_splits option.splits)

lemma lookup_Some:
  "param \<in> set [''$count'', ''$expand'', ''$filter'', ''$format'', ''$orderby'',
                    ''$search'', ''$select'', ''$skip'', ''$top'']
    \<Longrightarrow> \<exists>h. map_of (supported_options py fp) param = Some h"
  using lookup_None_iff [of py fp param] by (cases "map_of (supported_options py fp) param") auto

lemma lookup_filter: "map_of (supported_options py fp) ''$filter'' = Some (parse_filter fp)"
  by (simp add: supported_options_def)

lemma params_loop_quiet_step:
  assumes "param \<noteq> ''$filter''" and "\<not> raises py param values"
  shows "\<exists>o1. params_loop py fp ((param, values) # rest) options w = params_loop py fp rest o1 w
            \<and> filter' o1 = filter' options"
proof (cases "map_of (supported_options py fp) param")
  case None
  then show ?thesis by (intro exI [of _ options]) simp
next
  case (Some h)
  show ?thesis
  proof (cases "first_value values")
    case None
    with Some show ?thesis by (intro exI [of _ options]) simp
  next
    case v: (Some v)
    obtain r o1 w1 where h: "h v options w = ((r, o1), w1)"
      by (metis prod.exhaust)
    from raises_iff [OF Some assms(1) v, of options w] assms(2) h
    have "r = None" "w1 = w" "filter' o1 = filter' options" by auto
    with Some v h show ?thesis by (intro exI [of _ o1]) simp
  qed
qed

lemma params_loop_quiet_prefix:
  assumes "''$filter'' \<notin> fst ` set pre" and "\<forall>(k, values) \<in> set pre. \<not> raises py k values"
  shows "\<exists>o1. params_loop py fp (pre @ rest) options w = params_loop py fp rest o1 w
            \<and> filter' o1 = filter' options"
  using assms
proof (induction pre arbitrary: options)
  case Nil
  show ?case by (intro exI [of _ options]) simp
next
  case (Cons entry pre)
  obtain param "values" where e: "entry = (param, values)" by (cases entry)
  from Cons.prems have p: "param \<noteq> ''$filter''" and q: "\<not> raises py param values"
    by (auto simp: e)
  from params_loop_quiet_step [OF p q, where fp = fp and rest = "pre @ rest" and options = options and w = w]
  obtain o1 where s1: "params_loop py fp ((param, values) # pre @ rest) options w
      = params_loop py fp (pre @ rest) o1 w" and f1: "filter' o1 = filter' options"
    by blast
  from Cons.prems have "''$filter'' \<notin> fst ` set pre" "\<forall>(k, values) \<in> set pre. \<not> raises py k values"
    by auto
  from Cons.IH [OF this, of o1] obtain o2 where
    "params_loop py fp (pre @ rest) o1 w = params_loop py fp rest o2 w" "filter' o2 = filter' o1"
    by blast
  with s1 f1 show ?case by (auto simp: e)
qed

lemma params_loop_no_filter_world:
  assumes "''$filter'' \<notin> fst ` set post"
  shows "snd (params_loop py fp post options w) = w"
  using assms
proof (induction post arbitrary: options)
  case Nil
  then show ?case by simp
next
  case (Cons entry post)
  obtain param "values" where e: "entry = (param, values)" by (cases entry)
  from Cons.prems have p: "param \<noteq> ''$filter''" and rest: "''$filter'' \<notin> fst ` set post"
    by (auto simp: e)
  show ?case
  proof (cases "map_of (supported_options py fp) param")
    case None
    then show ?thesis by (simp add: e Cons.IH [OF rest])
  next
    case (Some h)
    show ?thesis
    proof (cases "first_value values")
      case None
      with Some show ?thesis by (simp add: e Cons.IH [OF rest])
    next
      case v: (Some v)
      obtain r o1 w1 where h: "h v options w = ((r, o1), w1)"
        by (metis prod.exhaust)
      from raises_iff(2) [OF Some p v, of options w] h have "w1 = w" by simp
      with Some v h show ?thesis
        by (cases r) (simp_all add: e Cons.IH [OF rest])
    qed
  qed
qed


section \<open>Lemmas about the tokenizer, the parser and the printer\<close>

lemma is_digit_digit_char: "d < 10 \<Longrightarrow> is_digit (digit_char d)"
  by (simp add: is_digit_def digit_char_def)

lemma digit_val_digit_char: "d < 10 \<Longrightarrow> digit_val (digit_char d) = d"
  by (simp add: digit_val_def digit_char_def)

lemma digits_of_nat_digits: "list_all is_digit (digits_of_nat n)"
  by (induction n rule: digits_of_nat.induct)
    (subst digits_of_nat.simps, simp add: is_digit_digit_char)

lemma digits_of_nat_nonempty: "digits_of_nat n \<noteq> []"
  by (subst digits_of_nat.simps) simp

lemma nat_of_digits_snoc: "nat_of_digits (ds @ [c]) = 10 * nat_of_digits ds + digit_val c"
  by (simp add: nat_of_digits_def)

lemma nat_of_digits_digits_of_nat: "nat_of_digits (digits_of_nat n) = n"
proof (induction n rule: digits_of_nat.induct)
  case (1 n)
  show ?case
  proof (cases "n < 10")
    case True
    then show ?thesis
      by (subst digits_of_nat.simps) (simp add: nat_of_digits_def digit_val_digit_char)
  next
    case False
    with 1 have "nat_of_digits (digits_of_nat (n div 10)) = n div 10" by simp
    with False show ?thesis
      by (subst digits_of_nat.simps) (simp add: nat_of_digits_snoc digit_val_digit_char)
  qed
qed

lemma nat_of_digits_zeros: "nat_of_digits (replicate k CHR ''0'' @ ds) = nat_of_digits ds"
proof -
  have "foldl (\<lambda>n c. 10 * n + digit_val c) 0 (replicate k CHR ''0'') = 0"
    by (induction k) (simp_all add: digit_val_def)
  then show ?thesis by (simp add: nat_of_digits_def)
qed

lemma takeWhile_all: "list_all P (takeWhile P xs)"
  by (induction xs) auto

lemma dropWhile_hd: "dropWhile P xs = y # ys \<Longrightarrow> \<not> P y"
  using hd_dropWhile [of P xs] by auto

lemma number_parts_cases:
  assumes "number_parts s = Some (negative, ip, fp, rest)"
  obtains (int) s1 where "ip = takeWhile is_digit s1" "dropWhile is_digit s1 = rest" "fp = []"
      "rest = [] \<or> hd rest \<noteq> CHR ''.''"
  | (frac) s1 r2 where "ip = takeWhile is_digit s1" "dropWhile is_digit s1 = CHR ''.'' # r2"
      "fp = takeWhile is_digit r2" "fp \<noteq> []" "rest = dropWhile is_digit r2"
proof -
  define s1 where "s1 = (if s \<noteq> [] \<and> hd s = CHR ''-'' then tl s else s)"
  note np = assms [unfolded number_parts_def Let_def, folded s1_def]
  show thesis
  proof (cases "dropWhile is_digit s1")
    case Nil
    from np have "ip = takeWhile is_digit s1 \<and> fp = [] \<and> rest = []"
      unfolding Nil by (simp split: if_splits)
    then show ?thesis using int [of s1] Nil by metis
  next
    case (Cons c r2)
    show ?thesis
    proof (cases "c = CHR ''.''")
      case True
      from np have "ip = takeWhile is_digit s1 \<and> fp = takeWhile is_digit r2 \<and> fp \<noteq> []
          \<and> rest = dropWhile is_digit r2"
        unfolding Cons True by (auto split: if_splits)
      then show ?thesis using frac [of s1 r2] Cons True by metis
    next
      case False
      from np False have "ip = takeWhile is_digit s1 \<and> fp = [] \<and> rest = c # r2"
        unfolding Cons by (simp split: if_splits)
      then show ?thesis using int [of s1] Cons False by (metis list.sel(1))
    qed
  qed
qed

lemma number_parts_digits:
  assumes "number_parts s = Some (negative, ip, fp, rest)"
  shows "list_all is_digit ip" and "list_all is_digit fp"
    and "rest = [] \<or> \<not> is_digit (hd rest)"
    and "fp = [] \<Longrightarrow> rest = [] \<or> hd rest \<noteq> CHR ''.''"
proof -
  show "list_all is_digit ip"
    using assms by (cases rule: number_parts_cases) (simp_all add: takeWhile_all)
  show "list_all is_digit fp"
    using assms by (cases rule: number_parts_cases) (simp_all add: takeWhile_all)
  show "rest = [] \<or> \<not> is_digit (hd rest)"
    using assms
  proof (cases rule: number_parts_cases)
    case (int s1)
    show ?thesis unfolding int(2) [symmetric] using hd_dropWhile [of is_digit s1] by blast
  next
    case (frac s1 r2)
    show ?thesis unfolding frac(5) using hd_dropWhile [of is_digit r2] by blast
  qed
  show "rest = [] \<or> hd rest \<noteq> CHR ''.''" if "fp = []"
    using assms that by (cases rule: number_parts_cases) simp_all
qed

lemma takeWhile_append_all:
  "list_all P xs \<Longrightarrow> ys = [] \<or> \<not> P (hd ys) \<Longrightarrow> takeWhile P (xs @ ys) = xs"
  by (induction xs) (auto simp: takeWhile_eq_Nil_iff)

lemma dropWhile_append_all:
  "list_all P xs \<Longrightarrow> ys = [] \<or> \<not> P (hd ys) \<Longrightarrow> dropWhile P (xs @ ys) = ys"
  by (induction xs) (auto simp: dropWhile_eq_self_iff)

lemma number_parts_complete:
  assumes "ip \<noteq> []" "list_all is_digit ip" "list_all is_digit fp"
    and "rest = [] \<or> \<not> is_digit (hd rest)"
    and "fp = [] \<Longrightarrow> rest = [] \<or> hd rest \<noteq> CHR ''.''"
  shows "number_parts ((if negative then ''-'' else []) @ ip @ (if fp = [] then [] else CHR ''.'' # fp) @ rest)
           = Some (negative, ip, fp, rest)"
proof -
  let ?tail = "(if fp = [] then [] else CHR ''.'' # fp) @ rest"
  let ?s = "(if negative then ''-'' else []) @ ip @ ?tail"
  from assms(1,2) have hd_ip: "is_digit (hd ip)" by (cases ip) auto
  have not_minus: "\<not> is_digit CHR ''-''" and not_dot: "\<not> is_digit CHR ''.''"
    by (simp_all add: is_digit_def)
  from hd_ip not_minus assms(1) have neg: "(?s \<noteq> [] \<and> hd ?s = CHR ''-'') = negative"
    by (cases ip) auto
  have s1: "(if negative then tl ?s else ?s) = ip @ ?tail" by simp
  have tail: "?tail = [] \<or> \<not> is_digit (hd ?tail)"
    using assms(4) not_dot by auto
  have tk: "takeWhile is_digit (ip @ ?tail) = ip" and dr: "dropWhile is_digit (ip @ ?tail) = ?tail"
    using takeWhile_append_all [OF assms(2) tail] dropWhile_append_all [OF assms(2) tail] by simp_all
  have tk2: "takeWhile is_digit (fp @ rest) = fp" and dr2: "dropWhile is_digit (fp @ rest) = rest"
    using takeWhile_append_all [OF assms(3,4)] dropWhile_append_all [OF assms(3,4)] by simp_all
  have unfold: "number_parts ?s =
      (if ip = [] then None
       else case ?tail of
              [] \<Rightarrow> Some (negative, ip, [], [])
            | c # r2 \<Rightarrow>
                if c = CHR ''.'' then
                  (let fp = takeWhile is_digit r2
                   in if fp = [] then None else Some (negative, ip, fp, dropWhile is_digit r2))
                else Some (negative, ip, [], ?tail))"
    unfolding number_parts_def Let_def neg s1 tk dr ..
  show ?thesis
  proof (cases "fp = []")
    case True
    with assms(5) have "rest = [] \<or> hd rest \<noteq> CHR ''.''" by simp
    with True assms(1) show ?thesis
      unfolding unfold by (cases rest) auto
  next
    case False
    with assms(1) show ?thesis
      unfolding unfold by (simp add: tk2 dr2)
  qed
qed

lemma decimal_of_text_show_decimal: "decimal_of_text (show_decimal d) = Some d"
proof -
  obtain m s where d: "d = Decimal m s" by (cases d)
  define ds where "ds = digits_of_nat (nat \<bar>m\<bar>)"
  define padded where "padded = replicate (Suc s - length ds) CHR ''0'' @ ds"
  define k where "k = length padded - s"
  define ip where "ip = take k padded"
  define fp where "fp = drop k padded"
  have zero: "is_digit CHR ''0''" by (simp add: is_digit_def)
  have len: "length padded \<ge> Suc s" by (simp add: padded_def)
  have all: "list_all is_digit padded"
    using digits_of_nat_digits [of "nat \<bar>m\<bar>"] zero
    by (auto simp: padded_def ds_def list_all_iff)
  have ip: "ip \<noteq> []" "list_all is_digit ip"
    using len all by (auto simp: ip_def k_def list_all_iff dest: in_set_takeD)
  have fp: "list_all is_digit fp" "length fp = s" "(fp = []) = (s = 0)"
    using len all by (auto simp: fp_def k_def list_all_iff dest: in_set_dropD)
  have "ip @ fp = padded"
    unfolding ip_def fp_def by (rule append_take_drop_id)
  then have val: "nat_of_digits (ip @ fp) = nat \<bar>m\<bar>"
    by (simp add: padded_def nat_of_digits_zeros ds_def nat_of_digits_digits_of_nat)
  have shown: "show_decimal d = (if m < 0 then ''-'' else []) @ ip @ (if fp = [] then [] else CHR ''.'' # fp) @ []"
    unfolding show_decimal_def Let_def d decimal.sel ds_def [symmetric] padded_def [symmetric]
      k_def [symmetric] ip_def [symmetric] fp_def [symmetric]
    using fp(3) by simp
  have "number_parts (show_decimal d) = Some (m < 0, ip, fp, [])"
    unfolding shown by (rule number_parts_complete [OF ip fp(1)]) simp_all
  then show ?thesis
    by (simp add: decimal_of_text_def val fp(2) d)
qed

lemma lex_string_escape:
  "rest = [] \<or> hd rest \<noteq> quote \<Longrightarrow> lex_string (escape s @ quote # rest) = Some (s, rest)"
proof (induction s)
  case Nil
  then show ?case by (cases rest) (auto simp: escape_def)
next
  case (Cons c s)
  from Cons.IH [OF Cons.prems] have "lex_string (escape s @ quote # rest) = Some (s, rest)" .
  then show ?case by (simp add: escape_def)
qed

lemma ident_char_not_special:
  assumes "is_ident_char c"
  shows "\<not> is_space c" "c \<noteq> CHR ''(''" "c \<noteq> CHR '')''" "c \<noteq> CHR '',''" "c \<noteq> quote" "c \<noteq> CHR ''-''"
    "c \<noteq> CHR '' ''" "c \<noteq> CHR ''.''"
  using assms
  by (auto simp: is_ident_char_def is_alpha_def is_digit_def is_space_def quote_def Let_def)

lemma digit_not_special:
  assumes "is_digit c"
  shows "\<not> is_space c" "c \<noteq> CHR ''(''" "c \<noteq> CHR '')''" "c \<noteq> CHR '',''" "c \<noteq> quote" "c \<noteq> CHR ''-''"
  using assms
  by (auto simp: is_digit_def is_space_def quote_def Let_def)

lemma special_chars:
  "\<not> is_space CHR ''(''" "\<not> is_space CHR '')''" "\<not> is_space CHR '',''" "\<not> is_space quote"
  "\<not> is_space CHR ''-''" "is_space CHR '' ''"
  "\<not> is_digit CHR '' ''" "\<not> is_digit CHR ''(''" "\<not> is_digit CHR '')''" "\<not> is_digit CHR '',''"
  "\<not> is_ident_char CHR '' ''" "\<not> is_ident_char CHR ''(''" "\<not> is_ident_char CHR '')''"
  "\<not> is_ident_char CHR '',''"
  "quote \<noteq> CHR ''(''" "quote \<noteq> CHR '')''" "quote \<noteq> CHR '',''" "quote \<noteq> CHR '' ''"
  "CHR ''-'' \<noteq> quote"
  by (simp_all add: is_space_def is_digit_def is_ident_char_def is_alpha_def quote_def)

lemma lex_word:
  assumes "is_word w" and "rest = [] \<or> \<not> is_ident_char (hd rest)"
  shows "tokenize_from p (w @ rest) =
     cons_token \<lparr>kind = classify w, text' = w, position = p\<rparr> (tokenize_from (p + length w) rest)"
proof -
  from assms(1) obtain c cs where w: "w = c # cs" and c: "is_ident_char c" "\<not> is_digit c"
    and cs: "list_all is_ident_char cs"
    by (cases w) (auto simp: is_word_def)
  from cs assms(2) have tk: "takeWhile is_ident_char (cs @ rest) = cs"
    and dr: "dropWhile is_ident_char (cs @ rest) = rest"
    by (simp_all add: takeWhile_append_all dropWhile_append_all)
  show ?thesis
    using c ident_char_not_special [OF c(1)]
    by (simp add: w tk dr Let_def)
qed

lemma lex_number_text:
  assumes "decimal_of_text txt \<noteq> None"
    and "rest = [] \<or> (\<not> is_digit (hd rest) \<and> hd rest \<noteq> CHR ''.'')"
  shows "lex_number (txt @ rest) = Some (txt, rest)"
    and "txt \<noteq> []" and "is_digit (hd txt) \<or> hd txt = CHR ''-''"
proof -
  from assms(1) obtain negative ip fp where np: "number_parts txt = Some (negative, ip, fp, [])"
    by (auto simp: decimal_of_text_def split: option.splits prod.splits list.splits)
  note sound = number_parts_sound [OF np] and digits = number_parts_digits(1,2) [OF np]
  from sound have shape: "txt = (if negative then ''-'' else []) @ ip @ (if fp = [] then [] else CHR ''.'' # fp)"
    by simp
  from sound(2) show "txt \<noteq> []" by (subst shape) simp
  from sound(2) digits(1) show "is_digit (hd txt) \<or> hd txt = CHR ''-''"
    by (subst (1 2) shape) (cases ip, auto)
  have "number_parts (txt @ rest) = Some (negative, ip, fp, rest)"
    using number_parts_complete [OF sound(2) digits, of rest negative] assms(2)
    by (subst shape) auto
  then show "lex_number (txt @ rest) = Some (txt, rest)"
    by (simp add: lex_number_def)
qed

lemma lex_one:
  assumes "wf_lexeme a" and "delimited a rest"
  shows "tokenize_from p (lexeme_text a @ rest) =
     cons_token \<lparr>kind = fst a, text' = snd a, position = p\<rparr>
       (tokenize_from (p + length (lexeme_text a)) rest)"
proof -
  obtain k lx where a: "a = (k, lx)" by (cases a)
  have delim: "rest = [] \<or> hd rest \<in> set '' (),''" if "k \<notin> {LParen, RParen, Comma}"
    using assms(2) that by (auto simp: delimited_def a)
  have word: ?thesis if "is_word lx" "classify lx = k" "k \<notin> {StringLiteral, LParen, RParen, Comma}"
  proof -
    from delim that(3) have "rest = [] \<or> \<not> is_ident_char (hd rest)"
      using special_chars by auto
    from lex_word [OF that(1) this, of p] that(2,3) show ?thesis
      by (cases k) (simp_all add: a)
  qed
  show ?thesis
  proof (cases k)
    case StringLiteral
    with delim have "rest = [] \<or> hd rest \<noteq> quote"
      using special_chars by auto
    from lex_string_escape [OF this, of lx] show ?thesis
      by (simp add: a StringLiteral special_chars)
  next
    case NumberLiteral
    with delim have d: "rest = [] \<or> (\<not> is_digit (hd rest) \<and> hd rest \<noteq> CHR ''.'')"
      using special_chars by auto
    from assms(1) have ok: "decimal_of_text lx \<noteq> None" by (simp add: a NumberLiteral)
    note n = lex_number_text [OF ok d]
    from n(2) obtain c cs where lx: "lx = c # cs" by (cases lx) auto
    with n(3) have c: "is_digit c \<or> c = CHR ''-''" by simp
    then have nospecial: "\<not> is_space c" "c \<noteq> CHR ''(''" "c \<noteq> CHR '')''" "c \<noteq> CHR '',''" "c \<noteq> quote"
      using digit_not_special [of c] special_chars by auto
    from n(1) have "lex_number (c # cs @ rest) = Some (c # cs, rest)" by (simp add: lx)
    with c nospecial show ?thesis
      by (simp add: a NumberLiteral lx)
  next
    case LParen
    with assms(1) show ?thesis by (simp add: a special_chars)
  next
    case RParen
    with assms(1) show ?thesis by (simp add: a special_chars)
  next
    case Comma
    with assms(1) show ?thesis by (simp add: a special_chars)
  qed (use assms(1) word in \<open>simp_all add: a\<close>)
qed

lemma lexemes_cons_token:
  "map_sum id (map lexeme_of) (cons_token t r) =
     (case map_sum id (map lexeme_of) r of Inl e \<Rightarrow> Inl e | Inr ls \<Rightarrow> Inr (lexeme_of t # ls))"
  by (cases r) (simp_all add: cons_token_def)

lemma render_Cons:
  "render (b # ls) =
     lexeme_text b @ (case ls of [] \<Rightarrow> [] | c # _ \<Rightarrow> (if glued b c then [] else '' '') @ render ls)"
  by (cases ls) simp_all

lemma wf_punct_text:
  assumes "wf_lexeme b"
  shows "fst b = LParen \<Longrightarrow> lexeme_text b = ''(''"
    and "fst b = RParen \<Longrightarrow> lexeme_text b = '')''"
    and "fst b = Comma \<Longrightarrow> lexeme_text b = '',''"
  using assms by (cases b; cases "fst b"; simp)+

lemma tokenize_render:
  assumes "list_all wf_lexeme ls"
  shows "map_sum id (map lexeme_of) (tokenize_from p (render ls)) = Inr ls"
  using assms
proof (induction ls arbitrary: p rule: render.induct)
  case 1
  show ?case by simp
next
  case (2 a)
  then have wf: "wf_lexeme a" by simp
  have "delimited a []" by (simp add: delimited_def)
  from lex_one [OF wf this, of p] show ?case
    by (simp add: cons_token_def lexeme_of_def)
next
  case (3 a b ls)
  from "3.prems" have wfa: "wf_lexeme a" and wfb: "wf_lexeme b" and wfr: "list_all wf_lexeme (b # ls)"
    by simp_all
  let ?sep = "if glued a b then [] else '' ''"
  let ?rest = "?sep @ render (b # ls)"
  obtain tail where rb: "render (b # ls) = lexeme_text b @ tail"
    using render_Cons [of b ls] by blast
  have delim: "delimited a ?rest"
  proof (cases "glued a b")
    case False
    then show ?thesis by (simp add: delimited_def)
  next
    case True
    then consider "fst a = LParen \<or> fst a = Comma" | "fst b = RParen" | "fst b = Comma" | "fst b = LParen"
      by (auto simp: glued_def)
    then show ?thesis
      using wf_punct_text [OF wfb] True by cases (auto simp: delimited_def rb)
  qed
  have skip: "tokenize_from q ?rest = tokenize_from (q + length ?sep) (render (b # ls))" for q
    by (simp add: special_chars del: render.simps)
  from "3.IH" [OF wfr, of "p + length (lexeme_text a) + length ?sep"]
  obtain ts where ts: "tokenize_from (p + length (lexeme_text a) + length ?sep) (render (b # ls)) = Inr ts"
    and lx: "map lexeme_of ts = b # ls"
    by (cases "tokenize_from (p + length (lexeme_text a) + length ?sep) (render (b # ls))") auto
  have "tokenize_from p (render (a # b # ls))
      = cons_token \<lparr>kind = fst a, text' = snd a, position = p\<rparr> (Inr ts)"
    unfolding render.simps(3) lex_one [OF wfa delim, of p] skip ts ..
  moreover have "lexeme_of \<lparr>kind = fst a, text' = snd a, position = p\<rparr> = a"
    by (simp add: lexeme_of_def)
  ultimately show ?case using lx
    by (simp add: cons_token_def del: render.simps)
qed

lemma classify_kinds:
  "classify w \<in> {Identifier, BooleanLiteral, NullLiteral, Operator, LogicalKeyword, Function}"
  by (simp add: classify_def Let_def)

lemma wf_lexeme_word: "is_word w \<Longrightarrow> wf_lexeme (classify w, w)"
  using classify_kinds [of w] by (cases "classify w") simp_all

lemma lex_number_wf:
  assumes "lex_number s = Some (tx, rest)"
  shows "decimal_of_text tx \<noteq> None"
proof -
  from assms obtain negative ip fp where np: "number_parts s = Some (negative, ip, fp, rest)"
    and tx: "tx = take (length s - length rest) s"
    by (auto simp: lex_number_def split: option.splits)
  note sound = number_parts_sound [OF np] and digits = number_parts_digits(1,2) [OF np]
  let ?t = "(if negative then ''-'' else []) @ ip @ (if fp = [] then [] else CHR ''.'' # fp)"
  from sound(1) have "s = ?t @ rest" by simp
  then have "tx = ?t" unfolding tx by (metis add_diff_cancel_right' append_eq_conv_conj length_append)
  moreover have "number_parts (?t @ []) = Some (negative, ip, fp, [])"
    using number_parts_complete [OF sound(2) digits, of "[]" negative] by simp
  ultimately show ?thesis by (simp add: decimal_of_text_def)
qed

lemma cons_token_Inr:
  "cons_token t r = Inr ts \<Longrightarrow> \<exists>ts'. r = Inr ts' \<and> ts = t # ts'"
  by (cases r) (auto simp: cons_token_def)

lemma tokenize_from_wf:
  "tokenize_from p s = Inr ts \<Longrightarrow> list_all (\<lambda>t. wf_lexeme (lexeme_of t)) ts"
proof (induction p s arbitrary: ts rule: tokenize_from.induct)
  case (1 pos)
  then show ?case by simp
next
  case (2 pos c cs)
  note prem = "2.prems" [unfolded tokenize_from.simps(2)]
  show ?case
  proof (cases "is_space c")
    case True
    with prem have "tokenize_from (pos + 1) cs = Inr ts" by simp
    from "2.IH"(1) [OF True this] show ?thesis .
  next
    case ns: False
    show ?thesis
    proof (cases "c \<in> set ''(),''")
      case True
      with ns prem obtain k where
        "cons_token \<lparr>kind = k, text' = [c], position = pos\<rparr> (tokenize_from (pos + 1) cs) = Inr ts"
        and wf: "wf_lexeme (k, [c])"
        by (auto split: if_splits)
      from cons_token_Inr [OF this(1)] obtain ts' where
        r: "tokenize_from (pos + 1) cs = Inr ts'" and ts: "ts = \<lparr>kind = k, text' = [c], position = pos\<rparr> # ts'"
        by blast
      from True ns r have "list_all (\<lambda>t. wf_lexeme (lexeme_of t)) ts'"
        using "2.IH"(2,3,4) by (cases "c = CHR ''(''"; cases "c = CHR '')''") auto
      with wf show ?thesis by (simp add: ts lexeme_of_def)
    next
      case np: False
      then have np': "c \<noteq> CHR ''(''" "c \<noteq> CHR '')''" "c \<noteq> CHR '',''" by auto
      show ?thesis
      proof (cases "c = quote")
        case True
        with ns np' prem obtain v rest where ls: "lex_string cs = Some (v, rest)"
          and "cons_token \<lparr>kind = StringLiteral, text' = v, position = pos\<rparr>
                 (tokenize_from (pos + (length (c # cs) - length rest)) rest) = Inr ts"
          by (auto split: option.splits)
        from cons_token_Inr [OF this(2)] obtain ts' where
          r: "tokenize_from (pos + (length (c # cs) - length rest)) rest = Inr ts'"
          and ts: "ts = \<lparr>kind = StringLiteral, text' = v, position = pos\<rparr> # ts'"
          by blast
        from "2.IH"(5) [OF ns np' True ls refl r] show ?thesis
          by (simp add: ts lexeme_of_def)
      next
        case nq: False
        show ?thesis
        proof (cases "is_digit c \<or> c = CHR ''-''")
          case True
          with ns np' nq prem obtain tx rest where ln: "lex_number (c # cs) = Some (tx, rest)"
            and "cons_token \<lparr>kind = NumberLiteral, text' = tx, position = pos\<rparr>
                   (tokenize_from (pos + length tx) rest) = Inr ts"
            by (auto split: option.splits)
          from cons_token_Inr [OF this(2)] obtain ts' where
            r: "tokenize_from (pos + length tx) rest = Inr ts'"
            and ts: "ts = \<lparr>kind = NumberLiteral, text' = tx, position = pos\<rparr> # ts'"
            by blast
          from "2.IH"(6) [OF ns np' nq True ln refl r] lex_number_wf [OF ln] show ?thesis
            by (simp add: ts lexeme_of_def)
        next
          case nd: False
          show ?thesis
          proof (cases "is_ident_char c")
            case True
            define word where "word = c # takeWhile is_ident_char cs"
            from True nd have w: "is_word word"
              by (simp add: word_def is_word_def takeWhile_all)
            from ns np' nq nd True prem have
              "cons_token \<lparr>kind = classify word, text' = word, position = pos\<rparr>
                 (tokenize_from (pos + length word) (dropWhile is_ident_char cs)) = Inr ts"
              by (simp add: word_def Let_def)
            from cons_token_Inr [OF this] obtain ts' where
              r: "tokenize_from (pos + length word) (dropWhile is_ident_char cs) = Inr ts'"
              and ts: "ts = \<lparr>kind = classify word, text' = word, position = pos\<rparr> # ts'"
              by blast
            from "2.IH"(7) [OF ns np' nq nd True word_def r] wf_lexeme_word [OF w] show ?thesis
              by (simp add: ts lexeme_of_def)
          next
            case False
            with ns np' nq nd prem show ?thesis by simp
          qed
        qed
      qed
    qed
  qed
qed

lemma split_from_nonempty: "split_from sep acc s \<noteq> []"
  by (induction s arbitrary: acc) auto

lemma join_path_Cons: "more \<noteq> [] \<Longrightarrow> join_path (segment # more) = segment @ CHR ''/'' # join_path more"
  for more :: "string list"
  by (cases more) simp_all

lemma join_split_from: "join_path (split_from CHR ''/'' acc s) = rev acc @ s"
  by (induction s arbitrary: acc) (simp_all add: join_path_Cons split_from_nonempty)

lemma join_split: "join_path (split s CHR ''/'') = s"
  by (simp add: split_def join_split_from)

lemma split_from_no_sep:
  "sep \<notin> set acc \<Longrightarrow> list_all (\<lambda>segment. sep \<notin> set segment) (split_from sep acc s)"
  by (induction s arbitrary: acc) auto

lemma split_from_segment:
  "sep \<notin> set seg \<Longrightarrow> split_from sep acc (seg @ rest) = split_from sep (rev seg @ acc) rest"
  by (induction seg arbitrary: acc) auto

lemma split_join:
  assumes "p \<noteq> []" and "list_all (\<lambda>segment. CHR ''/'' \<notin> set segment) p"
  shows "split (join_path p) CHR ''/'' = p"
  using assms
proof (induction p rule: join_path.induct)
  case 1
  then show ?case by simp
next
  case (2 segment)
  then show ?case
    using split_from_segment [of "CHR ''/''" segment "[]" "[]"] by (simp add: split_def)
next
  case (3 segment s2 segments)
  then have "split (join_path (s2 # segments)) CHR ''/'' = s2 # segments" by simp
  moreover from "3.prems" have "CHR ''/'' \<notin> set segment" by simp
  ultimately show ?case
    using split_from_segment [of "CHR ''/''" segment "[]" "CHR ''/'' # join_path (s2 # segments)"]
    by (simp add: split_def del: join_path.simps(3)) (simp)
qed

lemma wf_path_split:
  assumes "wf_lexeme (Identifier, tx)" and "[] \<notin> set (split tx CHR ''/'')"
  shows "wf_path (split tx CHR ''/'')"
  using assms split_from_no_sep [of "CHR ''/''" "[]" tx]
  by (simp add: wf_path_def join_split) (simp add: split_def split_from_nonempty)

lemma field_path_of_wf:
  assumes "wf_path p" and "text' t = join_path p"
  shows "field_path_of t = Inr p"
  using assms by (simp add: field_path_of_def wf_path_def split_join)

lemma lower_keywords:
  "lower ''true'' = ''true''" "lower ''false'' = ''false''" "lower ''and'' = ''and''"
  "lower ''or'' = ''or''" "lower ''not'' = ''not''"
  by code_simp+

lemma parse_literal_lexeme:
  assumes "lexeme_of t = literal_lexeme lit"
  shows "parse_literal t = Inr lit"
  using assms
  by (cases lit)
    (auto simp: parse_literal_def lexeme_of_def decimal_of_text_show_decimal lower_keywords)

lemma comparison_op_of_text: "comparison_op_of (comparison_op_text op) = Some op"
  by (cases op) (simp_all add: comparison_op_of_def lower_def lower_char_def)

lemma function_name_of_text: "function_name_of (function_name_text name) = Some name"
  by (cases name) (simp_all add: function_name_of_def lower_def lower_char_def)

lemma parse_comparison_complete:
  assumes "wf_path p"
    and "lexeme_of t1 = (Identifier, join_path p)"
    and "lexeme_of t2 = (Operator, comparison_op_text op)"
    and "lexeme_of t3 = literal_lexeme lit"
  shows "parse_primary (t1 # t2 # t3 # rest) = Inr (Comparison p op lit, rest)"
proof -
  from assms(2,3) have k: "kind t1 = Identifier" "text' t1 = join_path p"
    "kind t2 = Operator" "text' t2 = comparison_op_text op"
    by (simp_all add: lexeme_of_def)
  show ?thesis
    by (simp add: k parse_comparison_def field_path_of_wf [OF assms(1) k(2)] expect_def
        comparison_op_of_text parse_literal_lexeme [OF assms(4)])
qed

lemma parse_function_call_complete:
  assumes "wf_path p"
    and "map lexeme_of ts = [(Function, function_name_text name), (LParen, ''(''),
          (Identifier, join_path p), (Comma, '',''), literal_lexeme (String s), (RParen, '')'')]"
  shows "parse_primary (ts @ rest) = Inr (FunctionCall name p (String s), rest)"
proof -
  from assms(2) obtain t1 t2 t3 t4 t5 t6 where ts: "ts = [t1, t2, t3, t4, t5, t6]"
    and l: "lexeme_of t1 = (Function, function_name_text name)" "lexeme_of t2 = (LParen, ''('')"
      "lexeme_of t3 = (Identifier, join_path p)" "lexeme_of t4 = (Comma, '','')"
      "lexeme_of t5 = literal_lexeme (String s)" "lexeme_of t6 = (RParen, '')'')"
    by (auto simp: map_eq_Cons_conv)
  from l have k: "kind t1 = Function" "text' t1 = function_name_text name" "kind t2 = LParen"
    "kind t3 = Identifier" "text' t3 = join_path p" "kind t4 = Comma" "kind t6 = RParen"
    by (simp_all add: lexeme_of_def)
  show ?thesis
    by (simp add: ts k parse_function_call_def function_name_of_text expect_def
        field_path_of_wf [OF assms(1) k(5)] parse_literal_lexeme [OF l(5)])
qed

declare parse_or.simps [simp del] parse_and.simps [simp del]

lemma and_loop_stop: "\<not> starts_with_keyword ''and'' rest \<Longrightarrow> and_loop t rest = Inr (t, rest)"
  by (cases rest) (simp_all add: starts_with_keyword_def)

lemma or_loop_stop: "\<not> starts_with_keyword ''or'' rest \<Longrightarrow> or_loop t rest = Inr (t, rest)"
  by (cases rest) (simp_all add: starts_with_keyword_def)

lemma keyword_lexeme:
  "lexeme_of t = (LogicalKeyword, ''or'') \<Longrightarrow> is_keyword ''or'' t \<and> \<not> is_keyword ''and'' t"
  "lexeme_of t = (LogicalKeyword, ''and'') \<Longrightarrow> is_keyword ''and'' t"
  "lexeme_of t = (LogicalKeyword, ''not'') \<Longrightarrow> is_keyword ''not'' t"
  by (auto simp: lexeme_of_def is_keyword_def lower_keywords)

lemma not_keyword: "kind t \<noteq> LogicalKeyword \<Longrightarrow> \<not> is_keyword w t"
  by (simp add: is_keyword_def)

lemma unary_to_and: "parse_unary ts = Inr (t, rest) \<Longrightarrow> parse_and ts = and_loop t rest"
  by (simp add: parse_and.simps)

lemma and_to_or:
  "parse_and ts = and_loop t rest \<Longrightarrow> \<not> starts_with_keyword ''and'' rest
     \<Longrightarrow> parse_or ts = or_loop t rest"
  by (simp add: and_loop_stop parse_or.simps)

lemma parse_parenthesized:
  assumes inner: "\<And>ts rest. map lexeme_of ts = tokens_at 0 t \<Longrightarrow> \<not> starts_with_keyword ''and'' rest
            \<Longrightarrow> parse_or (ts @ rest) = or_loop t rest"
    and ts: "map lexeme_of ts = (LParen, ''('') # tokens_at 0 t @ [(RParen, '')'')]"
  shows "parse_unary (ts @ rest) = Inr (t, rest)"
proof -
  from ts obtain lp mid rp where shape: "ts = lp # mid @ [rp]"
    and lp: "lexeme_of lp = (LParen, ''('')" and mid: "map lexeme_of mid = tokens_at 0 t"
    and rp: "lexeme_of rp = (RParen, '')'')"
    by (auto simp: map_eq_Cons_conv map_eq_append_conv)
  from lp rp have k: "kind lp = LParen" "kind rp = RParen" by (simp_all add: lexeme_of_def)
  then have nk: "\<not> is_keyword ''not'' lp" "\<not> starts_with_keyword ''and'' (rp # rest)"
    "\<not> starts_with_keyword ''or'' (rp # rest)"
    by (simp_all add: not_keyword starts_with_keyword_def)
  have "parse_or (mid @ rp # rest) = Inr (t, rp # rest)"
    using inner [OF mid nk(2)] or_loop_stop [OF nk(3), of t] by (rule trans)
  with k nk(1) show ?thesis by (simp add: shape)
qed

lemma tokens_at_Logical:
  "tokens_at 2 (Logical op left right) = (LParen, ''('') # tokens_at 0 (Logical op left right) @ [(RParen, '')'')]"
  "tokens_at 1 (Logical Or left right) = (LParen, ''('') # tokens_at 0 (Logical Or left right) @ [(RParen, '')'')]"
  "tokens_at 1 (Logical And left right) = tokens_at 0 (Logical And left right)"
  by (cases op; simp add: parenthesized_def)+

lemma complete_forI:
  assumes "\<And>n ts rest. map lexeme_of ts = tokens_at n t \<Longrightarrow> parse_unary (ts @ rest) = Inr (t, rest)"
  shows "complete_for t"
  unfolding complete_for_def
  using and_to_or [OF unary_to_and [OF assms]] unary_to_and [OF assms] assms by blast

lemma parser_complete: "wf_node t \<Longrightarrow> complete_for t"
proof (induction t)
  case (Comparison p op lit)
  show ?case
  proof (rule complete_forI)
    fix n ts rest
    assume "map lexeme_of ts = tokens_at n (Comparison p op lit)"
    then obtain t1 t2 t3 where ts: "ts = [t1, t2, t3]"
      and l: "lexeme_of t1 = (Identifier, join_path p)"
        "lexeme_of t2 = (Operator, comparison_op_text op)" "lexeme_of t3 = literal_lexeme lit"
      by (auto simp: map_eq_Cons_conv)
    from l(1) have "kind t1 = Identifier" by (simp add: lexeme_of_def)
    then have "\<not> is_keyword ''not'' t1" by (simp add: not_keyword)
    moreover from Comparison.prems have "wf_path p" by simp
    ultimately show "parse_unary (ts @ rest) = Inr (Comparison p op lit, rest)"
      using parse_comparison_complete [OF _ l, of rest] by (simp add: ts)
  qed
next
  case (FunctionCall name p lit)
  show ?case
  proof (rule complete_forI)
    fix n ts rest
    assume a: "map lexeme_of ts = tokens_at n (FunctionCall name p lit)"
    from FunctionCall.prems obtain s where wf: "wf_path p" and lit: "lit = String s"
      by (cases lit) auto
    from a obtain t1 ts' where ts: "ts = t1 # ts'" and "lexeme_of t1 = (Function, function_name_text name)"
      by (auto simp: map_eq_Cons_conv)
    then have "kind t1 = Function" by (simp add: lexeme_of_def)
    then have "\<not> is_keyword ''not'' t1" by (simp add: not_keyword)
    with parse_function_call_complete [OF wf a [unfolded lit tokens_at.simps], of rest]
    show "parse_unary (ts @ rest) = Inr (FunctionCall name p lit, rest)"
      by (simp add: ts lit)
  qed
next
  case (Unary op x)
  from Unary have x: "complete_for x" by simp
  show ?case
  proof (rule complete_forI)
    fix n ts rest
    assume a: "map lexeme_of ts = tokens_at n (Unary op x)"
    have op: "op = NotOp" by (cases op)
    from a obtain t1 ts' where ts: "ts = t1 # ts'" and l: "lexeme_of t1 = (LogicalKeyword, ''not'')"
      and tx: "map lexeme_of ts' = tokens_at 2 x"
      by (auto simp: map_eq_Cons_conv op)
    from x tx have "parse_unary (ts' @ rest) = Inr (x, rest)"
      by (simp add: complete_for_def)
    with keyword_lexeme(3) [OF l] show "parse_unary (ts @ rest) = Inr (Unary op x, rest)"
      by (simp add: ts op)
  qed
next
  case (Logical op l r)
  then have cl: "complete_for l" and cr: "complete_for r" by simp_all
  have and_case: "parse_and (ts @ rest) = and_loop (Logical And l r) rest"
    if ts: "map lexeme_of ts = tokens_at 1 l @ (LogicalKeyword, ''and'') # tokens_at 2 r" for ts rest
  proof -
    from ts obtain tl k tr where shape: "ts = tl @ k # tr"
      and tl: "map lexeme_of tl = tokens_at 1 l" and k: "lexeme_of k = (LogicalKeyword, ''and'')"
      and tr: "map lexeme_of tr = tokens_at 2 r"
      by (auto simp: map_eq_append_conv map_eq_Cons_conv)
    from cl tl have "parse_and (ts @ rest) = and_loop l (k # tr @ rest)"
      by (simp add: shape complete_for_def)
    also have "\<dots> = and_loop (Logical And l r) rest"
      using keyword_lexeme(2) [OF k] cr tr by (simp add: complete_for_def)
    finally show ?thesis .
  qed
  have level0: "parse_or (ts @ rest) = or_loop (Logical op l r) rest"
    if ts: "map lexeme_of ts = tokens_at 0 (Logical op l r)"
      and rest: "\<not> starts_with_keyword ''and'' rest" for ts rest
  proof (cases op)
    case Or
    from ts obtain tl k tr where shape: "ts = tl @ k # tr"
      and tl: "map lexeme_of tl = tokens_at 0 l" and k: "lexeme_of k = (LogicalKeyword, ''or'')"
      and tr: "map lexeme_of tr = tokens_at 1 r"
      by (auto simp: Or parenthesized_def map_eq_append_conv map_eq_Cons_conv)
    note kw = keyword_lexeme(1) [OF k]
    then have "\<not> starts_with_keyword ''and'' (k # tr @ rest)"
      by (simp add: starts_with_keyword_def)
    with cl tl have "parse_or (ts @ rest) = or_loop l (k # tr @ rest)"
      by (simp add: shape complete_for_def)
    also have "\<dots> = or_loop (Logical Or l r) rest"
      using kw cr tr by (simp add: complete_for_def and_loop_stop [OF rest])
    finally show ?thesis by (simp add: Or)
  next
    case And
    from ts have "map lexeme_of ts = tokens_at 1 l @ (LogicalKeyword, ''and'') # tokens_at 2 r"
      by (simp add: And parenthesized_def)
    from and_to_or [OF and_case [OF this] rest] show ?thesis by (simp add: And)
  qed
  have level2: "parse_unary (ts @ rest) = Inr (Logical op l r, rest)"
    if "map lexeme_of ts = (LParen, ''('') # tokens_at 0 (Logical op l r) @ [(RParen, '')'')]" for ts rest
    using parse_parenthesized [of "Logical op l r" ts rest] level0 that by blast
  show ?case
    unfolding complete_for_def
  proof (intro conjI allI impI)
    fix ts rest
    assume "map lexeme_of ts = tokens_at 0 (Logical op l r)" "\<not> starts_with_keyword ''and'' rest"
    then show "parse_or (ts @ rest) = or_loop (Logical op l r) rest" by (rule level0)
  next
    fix ts rest
    assume a: "map lexeme_of ts = tokens_at 1 (Logical op l r)"
    show "parse_and (ts @ rest) = and_loop (Logical op l r) rest"
    proof (cases op)
      case Or
      from a have "map lexeme_of ts = (LParen, ''('') # tokens_at 0 (Logical op l r) @ [(RParen, '')'')]"
        unfolding Or tokens_at_Logical(2) .
      from unary_to_and [OF level2 [OF this]] show ?thesis .
    next
      case And
      from a have "map lexeme_of ts = tokens_at 1 l @ (LogicalKeyword, ''and'') # tokens_at 2 r"
        by (simp add: And parenthesized_def)
      from and_case [OF this] show ?thesis by (simp add: And)
    qed
  next
    fix ts rest
    assume "map lexeme_of ts = tokens_at 2 (Logical op l r)"
    then show "parse_unary (ts @ rest) = Inr (Logical op l r, rest)"
      unfolding tokens_at_Logical(1) by (rule level2)
  qed
qed

lemma wf_fixed_lexemes:
  "wf_lexeme (LogicalKeyword, ''or'')" "wf_lexeme (LogicalKeyword, ''and'')"
  "wf_lexeme (LogicalKeyword, ''not'')" "wf_lexeme (NullLiteral, ''null'')"
  "wf_lexeme (BooleanLiteral, ''true'')" "wf_lexeme (BooleanLiteral, ''false'')"
  "wf_lexeme (LParen, ''('')" "wf_lexeme (RParen, '')'')" "wf_lexeme (Comma, '','')"
  by code_simp+

lemma wf_comparison_op_text: "wf_lexeme (Operator, comparison_op_text op)"
  by (cases op; simp; code_simp)

lemma wf_function_name_text: "wf_lexeme (Function, function_name_text name)"
  by (cases name; simp; code_simp)

lemma wf_literal_lexeme: "wf_lexeme (literal_lexeme lit)"
proof (cases lit)
  case (Number d)
  then show ?thesis by (simp add: decimal_of_text_show_decimal)
next
  case (Boolean b)
  then show ?thesis using wf_fixed_lexemes(5,6) by (cases b) (simp_all del: wf_lexeme.simps)
next
  case Null
  then show ?thesis using wf_fixed_lexemes(4) by (simp del: wf_lexeme.simps)
qed simp

lemma wf_tokens_at: "wf_node t \<Longrightarrow> list_all wf_lexeme (tokens_at n t)"
proof (induction t arbitrary: n)
  case (Comparison p op lit)
  then show ?case
    by (simp add: wf_path_def wf_comparison_op_text wf_literal_lexeme del: wf_lexeme.simps)
next
  case (Logical op l r)
  then show ?case
    by (cases op) (simp_all add: parenthesized_def wf_fixed_lexemes del: wf_lexeme.simps)
next
  case (Unary op x)
  then show ?case by (cases op) (simp add: wf_fixed_lexemes del: wf_lexeme.simps)
next
  case (FunctionCall name p lit)
  then show ?case
    by (simp add: wf_path_def wf_function_name_text wf_literal_lexeme wf_fixed_lexemes
        del: wf_lexeme.simps)
qed

lemma tokens_at_nonempty: "tokens_at n t \<noteq> []"
proof (cases t)
  case (Logical op l r)
  then show ?thesis by (cases op) (simp_all add: parenthesized_def)
next
  case (Unary op x)
  then show ?thesis by (cases op) simp
qed simp_all

lemma parse_tokens_at:
  assumes "wf_node t" and "map lexeme_of ts = tokens_at 0 t"
  shows "parse ts = Inr t"
proof -
  from assms(2) tokens_at_nonempty [of 0 t] have ne: "ts \<noteq> []" by auto
  have "\<not> starts_with_keyword ''and'' []" by (simp add: starts_with_keyword_def)
  with parser_complete [OF assms(1)] assms(2) have "parse_or (ts @ []) = or_loop t []"
    unfolding complete_for_def by blast
  then have "parse_or ts = Inr (t, [])" by simp
  with ne show ?thesis by (cases ts) (simp_all add: parse_def)
qed

lemma parse_string_pretty:
  assumes "wf_node t"
  shows "parse_string (pretty t) = Inr t"
proof -
  from tokenize_render [OF wf_tokens_at [OF assms, of 0], of 0]
  obtain ts where ts: "tokenize (pretty t) = Inr ts" and lx: "map lexeme_of ts = tokens_at 0 t"
    by (cases "tokenize_from 0 (render (tokens_at 0 t))") (auto simp: tokenize_def pretty_def pretty_at_def)
  from parse_tokens_at [OF assms lx] ts show ?thesis by (simp add: parse_string_def)
qed

lemma field_path_of_Inr:
  assumes "field_path_of t = Inr p" and "kind t = Identifier" and "wf_lexeme (lexeme_of t)"
  shows "wf_path p"
proof -
  from assms(1) have p: "p = split (text' t) CHR ''/''" and ne: "[] \<notin> set (split (text' t) CHR ''/'')"
    by (auto simp: field_path_of_def Let_def split: if_splits)
  from assms(2,3) have "wf_lexeme (Identifier, text' t)" by (simp add: lexeme_of_def)
  from wf_path_split [OF this ne] show ?thesis by (simp add: p)
qed

lemma parse_comparison_wf:
  assumes "parse_comparison ident rest = Inr (node, r)" and "kind ident = Identifier"
    and "wf_lexeme (lexeme_of ident)" and "wf_tokens rest"
  shows "wf_node node \<and> wf_tokens r"
proof -
  from assms(1) obtain p op_tok rest1 op lit_tok lit where
    p: "field_path_of ident = Inr p" and "expect Operator ''expected a comparison operator'' rest = Inr (op_tok, rest1)"
    and "rest1 = lit_tok # r" and node: "node = Comparison p op lit"
    by (auto simp: parse_comparison_def split: sum.splits option.splits list.splits)
  from expect_rest [OF this(2)] this(3) assms(4) have "wf_tokens r" by simp
  with field_path_of_Inr [OF p assms(2,3)] show ?thesis by (simp add: node)
qed

lemma parse_function_call_wf:
  assumes "parse_function_call func rest = Inr (node, r)" and "wf_tokens rest"
  shows "wf_node node \<and> wf_tokens r"
proof -
  from assms(1) obtain name t1 rest1 ident rest2 p t3 rest3 lit_tok rest4 s t5 where
    e1: "expect LParen ''expected ( after the function name'' rest = Inr (t1, rest1)"
    and e2: "expect Identifier ''expected a field path as first argument'' rest1 = Inr (ident, rest2)"
    and p: "field_path_of ident = Inr p"
    and e3: "expect Comma (lower (text' func) @ '' takes exactly 2 arguments'') rest2 = Inr (t3, rest3)"
    and r3: "rest3 = lit_tok # rest4"
    and e4: "expect RParen (lower (text' func) @ '' takes exactly 2 arguments'') rest4 = Inr (t5, r)"
    and node: "node = FunctionCall name p (String s)"
    by (auto simp: parse_function_call_def split: sum.splits option.splits list.splits Literal.splits)
  note shape = expect_rest [OF e1] expect_rest [OF e2] expect_rest [OF e3] r3 expect_rest [OF e4]
  from e2 have k: "kind ident = Identifier"
    by (auto simp: expect_def split: list.splits if_splits)
  from assms(2) shape have "wf_lexeme (lexeme_of ident)" "wf_tokens r" by simp_all
  with field_path_of_Inr [OF p k] show ?thesis by (simp add: node)
qed

lemma parser_wf:
  shows "wf_tokens ts \<Longrightarrow> parse_or ts = Inr (node, r) \<Longrightarrow> wf_node node \<and> wf_tokens r"
    and "wf_tokens ts \<Longrightarrow> wf_node left \<Longrightarrow> or_loop left ts = Inr (node, r) \<Longrightarrow> wf_node node \<and> wf_tokens r"
    and "wf_tokens ts \<Longrightarrow> parse_and ts = Inr (node, r) \<Longrightarrow> wf_node node \<and> wf_tokens r"
    and "wf_tokens ts \<Longrightarrow> wf_node left \<Longrightarrow> and_loop left ts = Inr (node, r) \<Longrightarrow> wf_node node \<and> wf_tokens r"
    and "wf_tokens ts \<Longrightarrow> parse_unary ts = Inr (node, r) \<Longrightarrow> wf_node node \<and> wf_tokens r"
    and "wf_tokens ts \<Longrightarrow> parse_primary ts = Inr (node, r) \<Longrightarrow> wf_node node \<and> wf_tokens r"
proof (induction ts and left ts and ts and left ts and ts and ts
    arbitrary: node r and node r and node r and node r and node r and node r
    rule: parse_or_or_loop_parse_and_and_loop_parse_unary_parse_primary.induct)
  case (1 ts)
  from "1.prems"(2) obtain l r1 where a: "parse_and ts = Inr (l, r1)" and b: "or_loop l r1 = Inr (node, r)"
    by (auto simp: parse_or.simps split: sum.splits)
  from "1.IH"(1) [OF "1.prems"(1) a] have "wf_node l" "wf_tokens r1" by simp_all
  from "1.IH"(2) [OF a refl this(2,1) b] show ?case .
next
  case (2 left)
  then show ?case by simp
next
  case (3 left t rest)
  show ?case
  proof (cases "is_keyword ''or'' t")
    case True
    with "3.prems"(3) obtain x r1 where a: "parse_and rest = Inr (x, r1)"
      and b: "or_loop (Logical Or left x) r1 = Inr (node, r)"
      by (auto split: sum.splits)
    from "3.prems"(1) have "wf_tokens rest" by simp
    from "3.IH"(1) [OF True this a] have "wf_node x" "wf_tokens r1" by simp_all
    with "3.prems"(2) have "wf_node (Logical Or left x)" by simp
    from "3.IH"(2) [OF True a refl \<open>wf_tokens r1\<close> this b] show ?thesis .
  next
    case False
    with "3.prems" show ?thesis by auto
  qed
next
  case (4 ts)
  from "4.prems"(2) obtain l r1 where a: "parse_unary ts = Inr (l, r1)" and b: "and_loop l r1 = Inr (node, r)"
    by (auto simp: parse_and.simps split: sum.splits)
  from "4.IH"(1) [OF "4.prems"(1) a] have "wf_node l" "wf_tokens r1" by simp_all
  from "4.IH"(2) [OF a refl this(2,1) b] show ?case .
next
  case (5 left)
  then show ?case by simp
next
  case (6 left t rest)
  show ?case
  proof (cases "is_keyword ''and'' t")
    case True
    with "6.prems"(3) obtain x r1 where a: "parse_unary rest = Inr (x, r1)"
      and b: "and_loop (Logical And left x) r1 = Inr (node, r)"
      by (auto split: sum.splits)
    from "6.prems"(1) have "wf_tokens rest" by simp
    from "6.IH"(1) [OF True this a] have "wf_node x" "wf_tokens r1" by simp_all
    with "6.prems"(2) have "wf_node (Logical And left x)" by simp
    from "6.IH"(2) [OF True a refl \<open>wf_tokens r1\<close> this b] show ?thesis .
  next
    case False
    with "6.prems" show ?thesis by auto
  qed
next
  case 7
  then show ?case by simp
next
  case (8 t rest)
  show ?case
  proof (cases "is_keyword ''not'' t")
    case True
    with "8.prems"(2) obtain x where a: "parse_unary rest = Inr (x, r)" and n: "node = Unary NotOp x"
      by (auto split: sum.splits)
    from "8.prems"(1) have "wf_tokens rest" by simp
    from "8.IH"(1) [OF True this a] show ?thesis by (simp add: n)
  next
    case False
    with "8.prems"(2) have "parse_primary (t # rest) = Inr (node, r)" by simp
    from "8.IH"(2) [OF False "8.prems"(1) this] show ?thesis .
  qed
next
  case 9
  then show ?case by simp
next
  case (10 t rest)
  from "10.prems"(1) have wt: "wf_lexeme (lexeme_of t)" and wr: "wf_tokens rest" by simp_all
  show ?case
  proof (cases "kind t")
    case LParen
    with "10.prems"(2) obtain t' where a: "parse_or rest = Inr (node, t' # r)"
      by (auto split: sum.splits list.splits if_splits)
    from "10.IH" [OF LParen wr a] show ?thesis by simp
  next
    case Function
    with "10.prems"(2) have "parse_function_call t rest = Inr (node, r)" by simp
    from parse_function_call_wf [OF this wr] show ?thesis .
  next
    case Identifier
    with "10.prems"(2) have "parse_comparison t rest = Inr (node, r)"
      by (auto split: list.splits if_splits)
    from parse_comparison_wf [OF this Identifier wt wr] show ?thesis .
  qed (use "10.prems"(2) in simp_all)
qed

lemma pretty_pretty_at: "pretty t = pretty_at 0 t"
  by (simp add: pretty_def pretty_at_def)

lemma render_append:
  "xs \<noteq> [] \<Longrightarrow> ys \<noteq> [] \<Longrightarrow>
     render (xs @ ys) = render xs @ (if glued (last xs) (hd ys) then [] else '' '') @ render ys"
proof (induction xs rule: render.induct)
  case 1
  then show ?case by simp
next
  case (2 a)
  then show ?case by (cases ys) simp_all
next
  case (3 a b ls)
  then show ?case by simp
qed

lemma render_keyword:
  assumes "xs \<noteq> []" "ys \<noteq> []" "fst (last xs) \<notin> {LParen, Comma}" "fst (hd ys) \<notin> {RParen, Comma}"
  shows "render (xs @ (LogicalKeyword, w) # ys) = render xs @ '' '' @ w @ '' '' @ render ys"
proof -
  from assms(2,4) have "render ((LogicalKeyword, w) # ys) = w @ '' '' @ render ys"
    by (cases ys) (simp_all add: glued_def)
  with assms(1,3) show ?thesis
    by (simp add: render_append glued_def del: render.simps)
qed

lemma literal_lexeme_kind:
  "fst (literal_lexeme lit) \<in> {StringLiteral, NumberLiteral, BooleanLiteral, NullLiteral}"
  by (cases lit) simp_all

lemma tokens_at_ends:
  "fst (last (tokens_at n t)) \<notin> {LParen, Comma} \<and> fst (hd (tokens_at n t)) \<notin> {RParen, Comma}"
proof (induction t arbitrary: n)
  case (Comparison p op lit)
  then show ?case using literal_lexeme_kind [of lit] by auto
next
  case (Logical op l r)
  then show ?case
    by (cases op) (auto simp: parenthesized_def tokens_at_nonempty hd_append)
next
  case (Unary op x)
  then show ?case by (cases op) (simp add: tokens_at_nonempty)
next
  case (FunctionCall name p lit)
  then show ?case by simp
qed

lemma pretty_at_binary:
  "pretty_at 0 (Logical Or a b) = pretty_at 0 a @ '' or '' @ pretty_at 1 b"
  "pretty_at 0 (Logical And a b) = pretty_at 1 a @ '' and '' @ pretty_at 2 b"
  "pretty_at 1 (Logical And a b) = pretty_at 1 a @ '' and '' @ pretty_at 2 b"
  "pretty_at n (Unary NotOp a) = ''not '' @ pretty_at 2 a"
proof -
  note r = render_keyword [OF tokens_at_nonempty tokens_at_nonempty]
  from tokens_at_ends [of 0 a] tokens_at_ends [of 1 b]
  show "pretty_at 0 (Logical Or a b) = pretty_at 0 a @ '' or '' @ pretty_at 1 b"
    by (simp add: pretty_at_def parenthesized_def r)
  from tokens_at_ends [of 1 a] tokens_at_ends [of 2 b]
  show "pretty_at 0 (Logical And a b) = pretty_at 1 a @ '' and '' @ pretty_at 2 b"
    and "pretty_at 1 (Logical And a b) = pretty_at 1 a @ '' and '' @ pretty_at 2 b"
    by (simp_all add: pretty_at_def parenthesized_def r)
  from tokens_at_ends [of 2 a] tokens_at_nonempty [of 2 a]
  show "pretty_at n (Unary NotOp a) = ''not '' @ pretty_at 2 a"
    by (cases "tokens_at 2 a") (simp_all add: pretty_at_def glued_def)
qed

lemma precedence_general:
  assumes "wf_node a" "wf_node b" "wf_node c"
  shows "parse_string (pretty_at 0 a @ '' or '' @ pretty_at 1 b @ '' and '' @ pretty_at 2 c)
           = Inr (Logical Or a (Logical And b c))"
    and "parse_string (pretty_at 1 a @ '' and '' @ pretty_at 2 b @ '' or '' @ pretty_at 1 c)
           = Inr (Logical Or (Logical And a b) c)"
    and "parse_string (''not '' @ pretty_at 2 a @ '' and '' @ pretty_at 2 b)
           = Inr (Logical And (Unary NotOp a) b)"
    and "parse_string (pretty_at 0 a @ '' or '' @ pretty_at 1 b @ '' or '' @ pretty_at 1 c)
           = Inr (Logical Or (Logical Or a b) c)"
    and "parse_string (pretty_at 1 a @ '' and '' @ pretty_at 2 b @ '' and '' @ pretty_at 2 c)
           = Inr (Logical And (Logical And a b) c)"
proof -
  have 1: "wf_node (Logical Or a (Logical And b c))" and 2: "wf_node (Logical Or (Logical And a b) c)"
    and 3: "wf_node (Logical And (Unary NotOp a) b)" and 4: "wf_node (Logical Or (Logical Or a b) c)"
    and 5: "wf_node (Logical And (Logical And a b) c)"
    using assms by simp_all
  show "parse_string (pretty_at 0 a @ '' or '' @ pretty_at 1 b @ '' and '' @ pretty_at 2 c)
           = Inr (Logical Or a (Logical And b c))"
    using parse_string_pretty [OF 1] unfolding pretty_pretty_at pretty_at_binary by simp
  show "parse_string (pretty_at 1 a @ '' and '' @ pretty_at 2 b @ '' or '' @ pretty_at 1 c)
           = Inr (Logical Or (Logical And a b) c)"
    using parse_string_pretty [OF 2] unfolding pretty_pretty_at pretty_at_binary by simp
  show "parse_string (''not '' @ pretty_at 2 a @ '' and '' @ pretty_at 2 b)
           = Inr (Logical And (Unary NotOp a) b)"
    using parse_string_pretty [OF 3] unfolding pretty_pretty_at pretty_at_binary by simp
  show "parse_string (pretty_at 0 a @ '' or '' @ pretty_at 1 b @ '' or '' @ pretty_at 1 c)
           = Inr (Logical Or (Logical Or a b) c)"
    using parse_string_pretty [OF 4] unfolding pretty_pretty_at pretty_at_binary by simp
  show "parse_string (pretty_at 1 a @ '' and '' @ pretty_at 2 b @ '' and '' @ pretty_at 2 c)
           = Inr (Logical And (Logical And a b) c)"
    using parse_string_pretty [OF 5] unfolding pretty_pretty_at pretty_at_binary by simp
qed










lemma lex_string_escape_None: "lex_string (escape v) = None"
  by (induction v) (simp_all add: escape_def)

lemma lex_string_None_iff: "lex_string cs = None \<longleftrightarrow> (\<exists>v. cs = escape v)"
proof
  show "\<exists>v. cs = escape v" if "lex_string cs = None"
    using that
  proof (induction cs rule: lex_string.induct)
    case 1
    show ?case by (intro exI [of _ "[]"]) (simp add: escape_def)
  next
    case (2 c cs)
    show ?case
    proof (cases "c = quote")
      case True
      with "2.prems" obtain ds where cs: "cs = quote # ds" and n: "lex_string ds = None"
        by (cases cs) (auto split: if_splits)
      from "2.IH"(1) [OF True cs refl n] obtain v where "ds = escape v" by blast
      with True cs show ?thesis
        by (intro exI [of _ "quote # v"]) (simp add: escape_def)
    next
      case False
      with "2.prems" have "lex_string cs = None" by simp
      from "2.IH"(2) [OF False this] obtain v where "cs = escape v" by blast
      with False show ?thesis
        by (intro exI [of _ "c # v"]) (simp add: escape_def)
    qed
  qed
qed (auto simp: lex_string_escape_None)

lemma cons_token_then: "cons_token t (then_tokens ts r) = then_tokens (t # ts) r"
  by (cases r) (simp_all add: cons_token_def then_tokens_def)

lemma cons_token_then_Nil: "cons_token t r = then_tokens [t] r"
  by (cases r) (simp_all add: cons_token_def then_tokens_def)

lemma tokenize_render_rest:
  assumes "list_all wf_lexeme ls" and "ls = [] \<or> delimited (last ls) rest"
  shows "\<exists>ts. map lexeme_of ts = ls
           \<and> tokenize_from p (render ls @ rest) = then_tokens ts (tokenize_from (p + length (render ls)) rest)"
  using assms
proof (induction ls arbitrary: p rule: render.induct)
  case 1
  show ?case by (intro exI [of _ "[]"]) (simp add: then_tokens_def split: sum.splits)
next
  case (2 a)
  then have wf: "wf_lexeme a" and d: "delimited a rest" by simp_all
  show ?case
    by (intro exI [of _ "[\<lparr>kind = fst a, text' = snd a, position = p\<rparr>]"])
      (simp add: lex_one [OF wf d] cons_token_then_Nil lexeme_of_def)
next
  case (3 a b ls)
  from "3.prems" have wfa: "wf_lexeme a" and wfb: "wf_lexeme b" and wfr: "list_all wf_lexeme (b # ls)"
    and dl: "b # ls = [] \<or> delimited (last (b # ls)) rest"
    by simp_all
  let ?sep = "if glued a b then [] else '' ''"
  let ?rest = "?sep @ render (b # ls) @ rest"
  let ?q = "p + length (lexeme_text a) + length ?sep"
  obtain tail where rb: "render (b # ls) = lexeme_text b @ tail"
    using render_Cons [of b ls] by blast
  have delim: "delimited a ?rest"
  proof (cases "glued a b")
    case False
    then show ?thesis by (simp add: delimited_def)
  next
    case True
    then consider "fst a = LParen \<or> fst a = Comma" | "fst b = RParen" | "fst b = Comma" | "fst b = LParen"
      by (auto simp: glued_def)
    then show ?thesis
      using wf_punct_text [OF wfb] True by cases (auto simp: delimited_def rb)
  qed
  have skip: "tokenize_from q ?rest = tokenize_from (q + length ?sep) (render (b # ls) @ rest)" for q
    by (simp add: special_chars del: render.simps)
  from "3.IH" [OF wfr dl, of ?q] obtain ts where lx: "map lexeme_of ts = b # ls"
    and ts: "tokenize_from ?q (render (b # ls) @ rest)
               = then_tokens ts (tokenize_from (?q + length (render (b # ls))) rest)"
    by (elim exE conjE)
  have len: "?q + length (render (b # ls)) = p + length (render (a # b # ls))"
    by simp
  have "tokenize_from p (render (a # b # ls) @ rest)
      = cons_token \<lparr>kind = fst a, text' = snd a, position = p\<rparr>
          (then_tokens ts (tokenize_from (p + length (render (a # b # ls))) rest))"
    unfolding render.simps(3) append_assoc lex_one [OF wfa delim, of p] skip ts len ..
  moreover have "lexeme_of \<lparr>kind = fst a, text' = snd a, position = p\<rparr> = a"
    by (simp add: lexeme_of_def)
  ultimately show ?case using lx
    by (intro exI [of _ "\<lparr>kind = fst a, text' = snd a, position = p\<rparr> # ts"])
      (simp add: cons_token_then del: render.simps)
qed

lemma unterminated_after_tokens:
  assumes "list_all wf_lexeme ls" and "lex_string cs = None"
  shows "tokenize (render ls @ CHR '' '' # quote # cs)
           = Inl (LexError ''unterminated string literal'' (length (render ls) + 1))"
proof -
  have "ls = [] \<or> delimited (last ls) (CHR '' '' # quote # cs)"
    by (simp add: delimited_def)
  from tokenize_render_rest [OF assms(1) this, of 0] obtain ts where
    "tokenize_from 0 (render ls @ CHR '' '' # quote # cs)
       = then_tokens ts (tokenize_from (length (render ls)) (CHR '' '' # quote # cs))"
    by auto
  then show ?thesis
    using assms(2) by (simp add: tokenize_def then_tokens_def special_chars)
qed

lemma wf_path_simple: "wf_path [''Name'']" "wf_path [''a'']"
  by code_simp+



section \<open>The claims\<close>

subsection \<open>The option handlers\<close>

text \<open>
  C2.  For every value, \<open>_parse_skip\<close> raises \<open>NoPositiveIntegerValue\<close> exactly when
  \<open>int(value)\<close> raises, that is, the value does not parse as an integer, or gives a
  negative integer; otherwise it stores the parsed non-negative integer in \<open>skip\<close> and
  does not raise.  \<open>_parse_top\<close> does the same with \<open>top\<close>.  This holds whatever \<open>int\<close>
  accepts.
\<close>

theorem parse_skip_top_spec:
  "(fst (parse_skip py v options :: ('e, 'n) handler_result) = Some (NoPositiveIntegerValue ''$skip'' v)
      \<longleftrightarrow> (int_of_str py v = None \<or> (\<exists>n. int_of_str py v = Some n \<and> n < 0)))
   \<and> (\<forall>n. int_of_str py v = Some n \<and> 0 \<le> n
      \<longrightarrow> (parse_skip py v options :: ('e, 'n) handler_result) = (None, options\<lparr>skip := Some n\<rparr>))
   \<and> (fst (parse_skip py v options :: ('e, 'n) handler_result)
        \<in> {None, Some (NoPositiveIntegerValue ''$skip'' v)})
   \<and> (fst (parse_top py v options :: ('e, 'n) handler_result) = Some (NoPositiveIntegerValue ''$top'' v)
      \<longleftrightarrow> (int_of_str py v = None \<or> (\<exists>n. int_of_str py v = Some n \<and> n < 0)))
   \<and> (\<forall>n. int_of_str py v = Some n \<and> 0 \<le> n
      \<longrightarrow> (parse_top py v options :: ('e, 'n) handler_result) = (None, options\<lparr>top' := Some n\<rparr>))
   \<and> (fst (parse_top py v options :: ('e, 'n) handler_result)
        \<in> {None, Some (NoPositiveIntegerValue ''$top'' v)})"
  by (auto simp: parse_skip_def parse_top_def split: option.splits)

theorem parse_skip_top_spec_witness:
  "int_of_str python '' 12_3 '' = Some 123
   \<and> (parse_skip python '' 12_3 '' (default_options :: nat ODataQueryOptions) :: (unit, nat) handler_result)
       = (None, default_options\<lparr>skip := Some 123\<rparr>)
   \<and> (parse_top python '' 12_3 '' (default_options :: nat ODataQueryOptions) :: (unit, nat) handler_result)
       = (None, default_options\<lparr>top' := Some 123\<rparr>)
   \<and> int_of_str python ''-5'' = Some (- 5)
   \<and> fst (parse_skip python ''-5'' (default_options :: nat ODataQueryOptions) :: (unit, nat) handler_result)
       = Some (NoPositiveIntegerValue ''$skip'' ''-5'')
   \<and> int_of_str python ''1.5'' = None
   \<and> fst (parse_top python ''1.5'' (default_options :: nat ODataQueryOptions) :: (unit, nat) handler_result)
       = Some (NoPositiveIntegerValue ''$top'' ''1.5'')
   \<and> int_of_str python (''5'' @ [CHR 0xA0]) = Some 5
   \<and> (parse_top python (''5'' @ [CHR 0xA0]) (default_options :: nat ODataQueryOptions)
         :: (unit, nat) handler_result)
       = (None, default_options\<lparr>top' := Some 5\<rparr>)
   \<and> int_of_str python (replicate 4301 CHR ''0'') = None
   \<and> fst (parse_top python (replicate 4301 CHR ''0'') (default_options :: nat ODataQueryOptions)
         :: (unit, nat) handler_result)
       = Some (NoPositiveIntegerValue ''$top'' (replicate 4301 CHR ''0''))"
proof -
  have a: "int_of_str python '' 12_3 '' = Some 123" by code_simp
  have b: "int_of_str python ''-5'' = Some (- 5)" by code_simp
  have c: "int_of_str python ''1.5'' = None" by code_simp
  have d: "int_of_str python (''5'' @ [CHR 0xA0]) = Some 5" by code_simp
  have e: "int_of_str python (replicate 4301 CHR ''0'') = None"
    by (simp add: python_def py_int_def max_str_digits_def is_digit_def)
  show ?thesis
    using a b c d e
      parse_skip_top_spec [of python "'' 12_3 ''" "default_options :: nat ODataQueryOptions", where ?'e = unit]
      parse_skip_top_spec [of python "''-5''" "default_options :: nat ODataQueryOptions", where ?'e = unit]
      parse_skip_top_spec [of python "''1.5''" "default_options :: nat ODataQueryOptions", where ?'e = unit]
      parse_skip_top_spec [of python "''5'' @ [CHR 0xA0]" "default_options :: nat ODataQueryOptions",
        where ?'e = unit]
      parse_skip_top_spec [of python "replicate 4301 CHR ''0''" "default_options :: nat ODataQueryOptions",
        where ?'e = unit]
    by simp
qed

text \<open>
  C3.  For every value, \<open>_parse_format\<close> raises \<open>UnsupportedFormat\<close> exactly when the
  value is not one of the four strings json, xml, csv, tsv (compared as they are, so
  case matters); otherwise it stores the value in \<open>format_\<close> and does not raise.
\<close>

theorem parse_format_spec:
  "(fst (parse_format v options :: ('e, 'n) handler_result) = Some (UnsupportedFormat v)
      \<longleftrightarrow> v \<noteq> ''json'' \<and> v \<noteq> ''xml'' \<and> v \<noteq> ''csv'' \<and> v \<noteq> ''tsv'')
   \<and> (v = ''json'' \<or> v = ''xml'' \<or> v = ''csv'' \<or> v = ''tsv''
      \<longrightarrow> (parse_format v options :: ('e, 'n) handler_result) = (None, options\<lparr>format' := Some v\<rparr>))
   \<and> (fst (parse_format v options :: ('e, 'n) handler_result) \<in> {None, Some (UnsupportedFormat v)})"
  by (auto simp: parse_format_def)

theorem parse_format_spec_witness:
  "(parse_format ''csv'' (default_options :: nat ODataQueryOptions) :: (unit, nat) handler_result)
     = (None, default_options\<lparr>format' := Some ''csv''\<rparr>)
   \<and> fst (parse_format ''JSON'' (default_options :: nat ODataQueryOptions) :: (unit, nat) handler_result)
     = Some (UnsupportedFormat ''JSON'')"
  using parse_format_spec [of "''csv''" "default_options :: nat ODataQueryOptions", where ?'e = unit]
    parse_format_spec [of "''JSON''" "default_options :: nat ODataQueryOptions", where ?'e = unit]
  by simp

text \<open>
  C8.  On a non-empty value, \<open>_parse_orderby\<close> does not raise and stores a list with one
  entry for each comma-separated item of the value.  Every entry is a dict with the
  keys \<open>field\<close> and \<open>direction\<close> and no other, its direction is \<open>asc\<close> or \<open>desc\<close>, and it
  is \<open>asc\<close> whenever the stripped item, in lower case, ends neither in \<open>asc\<close> nor in
  \<open>desc\<close> after a blank.  This holds whatever \<open>strip\<close> removes and \<open>lower\<close> maps.
\<close>

theorem parse_orderby_entries:
  assumes "v \<noteq> []"
  shows "\<exists>entries.
      (parse_orderby py v options :: ('e, 'n) handler_result) = (None, options\<lparr>orderby := Some entries\<rparr>)
    \<and> length entries = length (split v CHR '','')
    \<and> length entries = Suc (count_list v CHR '','')
    \<and> (\<forall>i < length entries.
          map fst (entries ! i) = [''field'', ''direction'']
        \<and> (map_of (entries ! i) ''direction'' = Some ''asc''
            \<or> map_of (entries ! i) ''direction'' = Some ''desc'')
        \<and> (\<not> endswith (str_lower py (str_strip py (split v CHR '','' ! i))) '' asc''
            \<and> \<not> endswith (str_lower py (str_strip py (split v CHR '','' ! i))) '' desc''
            \<longrightarrow> map_of (entries ! i) ''direction'' = Some ''asc''))"
proof (intro exI [of _ "map (orderby_item py) (split v CHR '','')"] conjI allI impI)
  show "(parse_orderby py v options :: ('e, 'n) handler_result)
          = (None, options\<lparr>orderby := Some (map (orderby_item py) (split v CHR '',''))\<rparr>)"
    using assms by (simp add: parse_orderby_def)
qed (simp_all add: length_split orderby_item_keys orderby_item_direction)

theorem parse_orderby_entries_witness:
  "''name desc, Age ASC,id'' @ CHR 0xA0 # '','' @ CHR 0xA0 # '' desc,x Desc'' @ [CHR 0xA0] \<noteq> []
   \<and> (parse_orderby python
         (''name desc, Age ASC,id'' @ CHR 0xA0 # '','' @ CHR 0xA0 # '' desc,x Desc'' @ [CHR 0xA0])
         (default_options :: nat ODataQueryOptions)
        :: (unit, nat) handler_result)
      = (None, default_options\<lparr>orderby := Some
           [ [(''field'', ''name''), (''direction'', ''desc'')],
             [(''field'', ''Age ASC''), (''direction'', ''asc'')],
             [(''field'', ''id''), (''direction'', ''asc'')],
             [(''field'', ''desc''), (''direction'', ''asc'')],
             [(''field'', ''x Desc''), (''direction'', ''desc'')] ]\<rparr>)
   \<and> split (''name desc, Age ASC,id'' @ CHR 0xA0 # '','' @ CHR 0xA0 # '' desc,x Desc'' @ [CHR 0xA0]) CHR '',''
      = [''name desc'', '' Age ASC'', ''id'' @ [CHR 0xA0], CHR 0xA0 # '' desc'', ''x Desc'' @ [CHR 0xA0]]"
proof -
  let ?v = "''name desc, Age ASC,id'' @ CHR 0xA0 # '','' @ CHR 0xA0 # '' desc,x Desc'' @ [CHR 0xA0]"
  have ne: "?v \<noteq> []" by simp
  have items: "split ?v CHR '',''
      = [''name desc'', '' Age ASC'', ''id'' @ [CHR 0xA0], CHR 0xA0 # '' desc'', ''x Desc'' @ [CHR 0xA0]]"
    by code_simp
  have e1: "orderby_item python ''name desc'' = [(''field'', ''name''), (''direction'', ''desc'')]"
    and e2: "orderby_item python '' Age ASC'' = [(''field'', ''Age ASC''), (''direction'', ''asc'')]"
    and e3: "orderby_item python [CHR ''i'', CHR ''d'', CHR 0xA0]
        = [(''field'', ''id''), (''direction'', ''asc'')]"
    and e4: "orderby_item python (CHR 0xA0 # '' desc'') = [(''field'', ''desc''), (''direction'', ''asc'')]"
    and e5: "orderby_item python [CHR ''x'', CHR '' '', CHR ''D'', CHR ''e'', CHR ''s'', CHR ''c'', CHR 0xA0]
        = [(''field'', ''x Desc''), (''direction'', ''desc'')]"
    by code_simp+
  from parse_orderby_entries [OF ne, of python "default_options :: nat ODataQueryOptions", where ?'e = unit]
  obtain entries where
    "(parse_orderby python ?v (default_options :: nat ODataQueryOptions)
        :: (unit, nat) handler_result) = (None, default_options\<lparr>orderby := Some entries\<rparr>)"
    by (elim exE conjE)
  then show ?thesis
    using ne unfolding parse_orderby_def items by (simp add: e1 e2 e3 e4 e5)
qed

subsection \<open>The entry points\<close>

text \<open>
  C9.  For every URL, \<open>parse_url\<close> gives what \<open>parse_query_string\<close> gives on the query
  component that \<open>urlparse\<close> extracts from the URL, that is, what
  \<open>parse_query_params\<close> gives on the parsed query component; when \<open>urlparse\<close> rejects
  the URL, its error is the result.  This holds for every \<open>urlparse\<close> and \<open>parse_qs\<close> and
  whatever the built-ins do.
\<close>

theorem parse_url_refines:
  "parse_url py urlparse parse_qs fp url w =
     (case urlparse url of
        Inl msg \<Rightarrow> (Inl (ValueError msg), w)
      | Inr parsed_url \<Rightarrow> parse_query_string py parse_qs fp (query parsed_url) w)
   \<and> (\<forall>parsed_url. urlparse url = Inr parsed_url \<longrightarrow>
          parse_url py urlparse parse_qs fp url w = parse_query_string py parse_qs fp (query parsed_url) w
        \<and> parse_url py urlparse parse_qs fp url w = parse_query_params py fp (parse_qs (query parsed_url)) w)"
  by (simp add: parse_url_def parse_query_string_def)

theorem parse_url_refines_witness:
  "urlparse_model ''http://host/odata/Products?$orderby=Name%20desc&$top=5&$top=7&x=&y''
     = Inr \<lparr>scheme = ''http'', netloc = ''host'', path = ''/odata/Products'', params = [],
            query = ''$orderby=Name%20desc&$top=5&$top=7&x=&y'', fragment = []\<rparr>
   \<and> parse_url python urlparse_model parse_qs_model (logged parse_string)
         ''http://host/odata/Products?$orderby=Name%20desc&$top=5&$top=7&x=&y'' []
       = parse_query_string python parse_qs_model (logged parse_string)
           ''$orderby=Name%20desc&$top=5&$top=7&x=&y'' []
   \<and> parse_query_string python parse_qs_model (logged parse_string)
         ''$orderby=Name%20desc&$top=5&$top=7&x=&y'' []
       = (Inr (default_options\<lparr>orderby := Some [ [(''field'', ''Name''), (''direction'', ''desc'')] ],
                 top' := Some 5\<rparr>), [])"
proof -
  have u: "urlparse_model ''http://host/odata/Products?$orderby=Name%20desc&$top=5&$top=7&x=&y''
     = Inr \<lparr>scheme = ''http'', netloc = ''host'', path = ''/odata/Products'', params = [],
            query = ''$orderby=Name%20desc&$top=5&$top=7&x=&y'', fragment = []\<rparr>"
    by code_simp
  have q: "parse_query_string python parse_qs_model (logged parse_string)
         ''$orderby=Name%20desc&$top=5&$top=7&x=&y'' []
       = (Inr (default_options\<lparr>orderby := Some [ [(''field'', ''Name''), (''direction'', ''desc'')] ],
                 top' := Some 5\<rparr>), [])"
    by code_simp
  from u q
    parse_url_refines [of python urlparse_model parse_qs_model "logged parse_string"
      "''http://host/odata/Products?$orderby=Name%20desc&$top=5&$top=7&x=&y''" "[]"]
  show ?thesis by simp
qed

text \<open>
  C10.  When \<open>parse_query_params\<close> returns, every field of the options still has its
  default value unless the mapping has the key of that field with a non-empty list of
  values.  Items with a key outside the nine supported ones, with an empty list or
  with \<open>None\<close> as first value change nothing: without them the outcome is the same.
  Only the first value of a list is read: with every later value dropped the outcome
  is the same.  The outcome is the returned record or the raised exception, and the
  state the filter parser is left in.  This holds whatever the built-ins do.
\<close>

theorem parse_query_params_frame:
  "(\<forall>options w'. parse_query_params py fp qp w = (Inr options, w') \<longrightarrow>
        (\<not> has_value qp ''$count'' \<longrightarrow> count options = False)
      \<and> (\<not> has_value qp ''$expand'' \<longrightarrow> expand options = None)
      \<and> (\<not> has_value qp ''$filter'' \<longrightarrow> filter' options = None)
      \<and> (\<not> has_value qp ''$format'' \<longrightarrow> format' options = None)
      \<and> (\<not> has_value qp ''$orderby'' \<longrightarrow> orderby options = None)
      \<and> (\<not> has_value qp ''$search'' \<longrightarrow> search options = None)
      \<and> (\<not> has_value qp ''$select'' \<longrightarrow> select options = None)
      \<and> (\<not> has_value qp ''$skip'' \<longrightarrow> skip options = None)
      \<and> (\<not> has_value qp ''$top'' \<longrightarrow> top' options = None))
   \<and> parse_query_params py fp (filter relevant qp) w = parse_query_params py fp qp w
   \<and> parse_query_params py fp (map first_only qp) w = parse_query_params py fp qp w"
proof (intro conjI allI impI)
  fix options w'
  assume run: "parse_query_params py fp qp w = (Inr options, w')"
  then have loop: "params_loop py fp qp default_options w = (Inr options, w')"
    by (simp add: parse_query_params_def)
  note u = params_loop_unchanged [OF loop, unfolded unchanged_def default_options_def]
  { assume "\<not> has_value qp ''$count''" from u [OF this] show "count options = False" by simp }
  { assume "\<not> has_value qp ''$expand''" from u [OF this] show "expand options = None" by simp }
  { assume "\<not> has_value qp ''$filter''" from u [OF this] show "filter' options = None" by simp }
  { assume "\<not> has_value qp ''$format''" from u [OF this] show "format' options = None" by simp }
  { assume "\<not> has_value qp ''$orderby''" from u [OF this] show "orderby options = None" by simp }
  { assume "\<not> has_value qp ''$search''" from u [OF this] show "search options = None" by simp }
  { assume "\<not> has_value qp ''$select''" from u [OF this] show "select options = None" by simp }
  { assume "\<not> has_value qp ''$skip''" from u [OF this] show "skip options = None" by simp }
  { assume "\<not> has_value qp ''$top''" from u [OF this] show "top' options = None" by simp }
next
  show "parse_query_params py fp (filter relevant qp) w = parse_query_params py fp qp w"
    by (simp add: parse_query_params_def params_loop_relevant)
next
  show "parse_query_params py fp (map first_only qp) w = parse_query_params py fp qp w"
    by (simp add: parse_query_params_def params_loop_first_only)
qed

theorem parse_query_params_frame_witness:
  "parse_query_params python (logged parse_string)
      [(''$top'', [Some ''5'', Some ''x'']), (''$select'', []), (''page'', [Some ''2'']),
       (''$skip'', [None, Some ''3'']), (''$count'', [Some ''TRUE''])] []
     = (Inr (default_options\<lparr>count := True, top' := Some 5\<rparr>), [])
   \<and> \<not> has_value [(''$top'', [Some ''5'', Some ''x'']), (''$select'', []), (''page'', [Some ''2'']),
       (''$skip'', [None, Some ''3'']), (''$count'', [Some ''TRUE''])] ''$select''
   \<and> filter relevant [(''$top'', [Some ''5'', Some ''x'']), (''$select'', []), (''page'', [Some ''2'']),
       (''$skip'', [None, Some ''3'']), (''$count'', [Some ''TRUE''])]
     = [(''$top'', [Some ''5'', Some ''x'']), (''$count'', [Some ''TRUE''])]
   \<and> parse_query_params python (logged parse_string)
       [(''$top'', [Some ''5'', Some ''x'']), (''$count'', [Some ''TRUE''])] []
     = (Inr (default_options\<lparr>count := True, top' := Some 5\<rparr>), [])
   \<and> parse_query_params python (logged parse_string)
       (map first_only [(''$top'', [Some ''5'', Some ''x'']), (''$select'', []), (''page'', [Some ''2'']),
          (''$skip'', [None, Some ''3'']), (''$count'', [Some ''TRUE''])]) []
     = (Inr (default_options\<lparr>count := True, top' := Some 5\<rparr>), [])"
proof -
  let ?qp = "[(''$top'', [Some ''5'', Some ''x'']), (''$select'', []), (''page'', [Some ''2'']),
       (''$skip'', [None, Some ''3'']), (''$count'', [Some ''TRUE''])]"
  have run: "parse_query_params python (logged parse_string) ?qp []
     = (Inr (default_options\<lparr>count := True, top' := Some 5\<rparr>), [])"
    by code_simp
  have nosel: "\<not> has_value ?qp ''$select''" by code_simp
  have rel: "filter relevant ?qp = [(''$top'', [Some ''5'', Some ''x'']), (''$count'', [Some ''TRUE''])]"
    by code_simp
  from run nosel rel parse_query_params_frame [of python "logged parse_string" ?qp "[]"]
  show ?thesis by simp
qed

text \<open>
  C1 (amended).  Let a mapping hold \<open>$filter\<close> once, with first value \<open>v\<close>, and let no
  handler of an item before it raise.  Then \<open>parse_query_params\<close> calls the filter
  parser's \<open>parse\<close> exactly once, with \<open>v\<close>.  An exception of that call leaves
  \<open>parse_query_params\<close> as it is.  A tree it returns is in the \<open>filter_\<close> field of the
  returned record, provided that no handler of an item after \<open>$filter\<close> raises.  Whether
  the handler of \<open>$skip\<close> or \<open>$top\<close> raises is decided by \<open>int\<close>, whatever it accepts.
\<close>

theorem parse_query_params_filter:
  assumes "qp = pre @ (''$filter'', Some v # vs) # post"
    and "''$filter'' \<notin> fst ` set pre" and "''$filter'' \<notin> fst ` set post"
    and "\<forall>(k, values) \<in> set pre. \<not> raises py k values"
  shows "snd (parse_query_params py (logged f) qp []) = [v]
       \<and> (\<forall>e. f v = Inl e \<longrightarrow> fst (parse_query_params py (logged f) qp []) = Inl (FilterError e))
       \<and> (\<forall>node. f v = Inr node \<and> (\<forall>(k, values) \<in> set post. \<not> raises py k values)
             \<longrightarrow> (\<exists>options. fst (parse_query_params py (logged f) qp []) = Inr options
                    \<and> filter' options = Some node))"
proof -
  let ?fp = "logged f :: ('a, 'b, string list) filter_parser"
  obtain o1 where pre: "params_loop py ?fp qp default_options []
        = params_loop py ?fp ((''$filter'', Some v # vs) # post) o1 []"
    using params_loop_quiet_prefix [OF assms(2,4), where fp = ?fp and options = default_options and w = "[]"]
    unfolding assms(1) by blast
  have fv: "first_value (Some v # vs) = Some v" by (simp add: first_value_def)
  show ?thesis
  proof (cases "f v")
    case (Inl e)
    then have "params_loop py ?fp ((''$filter'', Some v # vs) # post) o1 [] = (Inl (FilterError e), [v])"
      by (simp add: lookup_filter fv parse_filter_def logged_def)
    with pre Inl show ?thesis by (simp add: parse_query_params_def)
  next
    case (Inr node)
    then have step: "params_loop py ?fp ((''$filter'', Some v # vs) # post) o1 []
        = params_loop py ?fp post (o1\<lparr>filter' := Some node\<rparr>) [v]"
      by (simp add: lookup_filter fv parse_filter_def logged_def)
    have log: "snd (params_loop py ?fp post (o1\<lparr>filter' := Some node\<rparr>) [v]) = [v]"
      by (rule params_loop_no_filter_world [OF assms(3)])
    have stored: "\<exists>options. fst (params_loop py ?fp post (o1\<lparr>filter' := Some node\<rparr>) [v]) = Inr options
          \<and> filter' options = Some node"
      if quiet: "\<forall>(k, values) \<in> set post. \<not> raises py k values"
    proof -
      from params_loop_quiet_prefix [OF assms(3) quiet, where fp = ?fp and rest = "[]"
          and options = "o1\<lparr>filter' := Some node\<rparr>" and w = "[v]"]
      show ?thesis by auto
    qed
    from pre step log stored Inr show ?thesis
      by (simp add: parse_query_params_def)
  qed
qed

theorem parse_query_params_filter_witness:
  "[(''$top'', [Some [CHR ''5'', CHR 0xA0]]), (''$filter'', [Some ''a eq 1'', Some ''b eq 2'']), (''$skip'', [Some ''2''])]
     = [(''$top'', [Some [CHR ''5'', CHR 0xA0]])] @ (''$filter'', Some ''a eq 1'' # [Some ''b eq 2'']) # [(''$skip'', [Some ''2''])]
   \<and> \<not> raises python ''$top'' [Some [CHR ''5'', CHR 0xA0]] \<and> \<not> raises python ''$skip'' [Some ''2'']
   \<and> parse_string ''a eq 1'' = Inr (Comparison [''a''] Eq (Number (Decimal 1 0)))
   \<and> snd (parse_query_params python (logged parse_string)
        [(''$top'', [Some [CHR ''5'', CHR 0xA0]]), (''$filter'', [Some ''a eq 1'', Some ''b eq 2'']), (''$skip'', [Some ''2''])] [])
       = [''a eq 1'']
   \<and> (\<exists>options. fst (parse_query_params python (logged parse_string)
        [(''$top'', [Some [CHR ''5'', CHR 0xA0]]), (''$filter'', [Some ''a eq 1'', Some ''b eq 2'']), (''$skip'', [Some ''2''])] [])
         = Inr options
       \<and> filter' options = Some (Comparison [''a''] Eq (Number (Decimal 1 0))))"
proof -
  let ?qp = "[(''$top'', [Some [CHR ''5'', CHR 0xA0]]), (''$filter'', [Some ''a eq 1'', Some ''b eq 2'']), (''$skip'', [Some ''2''])]"
  have shape: "?qp = [(''$top'', [Some [CHR ''5'', CHR 0xA0]])] @ (''$filter'', Some ''a eq 1'' # [Some ''b eq 2'']) # [(''$skip'', [Some ''2''])]"
    by simp
  have q1: "\<not> raises python ''$top'' [Some [CHR ''5'', CHR 0xA0]]" and q2: "\<not> raises python ''$skip'' [Some ''2'']"
    by code_simp+
  have p: "parse_string ''a eq 1'' = Inr (Comparison [''a''] Eq (Number (Decimal 1 0)))"
    by code_simp
  have h2: "''$filter'' \<notin> fst ` set [(''$top'', [Some [CHR ''5'', CHR 0xA0]])]"
    and h3: "''$filter'' \<notin> fst ` set [(''$skip'', [Some ''2''])]"
    by simp_all
  have h4: "\<forall>(k, values) \<in> set [(''$top'', [Some [CHR ''5'', CHR 0xA0]])]. \<not> raises python k values"
    and h5: "\<forall>(k, values) \<in> set [(''$skip'', [Some ''2''])]. \<not> raises python k values"
    using q1 q2 by simp_all
  from parse_query_params_filter [OF shape h2 h3 h4, of parse_string] p h5
  have "snd (parse_query_params python (logged parse_string) ?qp []) = [''a eq 1'']
      \<and> (\<exists>options. fst (parse_query_params python (logged parse_string) ?qp []) = Inr options
           \<and> filter' options = Some (Comparison [''a''] Eq (Number (Decimal 1 0))))"
    by blast
  with shape q1 q2 p show ?thesis by blast
qed

text \<open>
  C1 as stated fails: with a \<open>$skip\<close> of \<open>-1\<close> before \<open>$filter\<close>, the handler of \<open>$skip\<close>
  raises, the loop ends, and the filter parser is never called.
\<close>

theorem filter_parse_skipped_counterexample:
  "parse_query_params python (logged parse_string)
     [(''$skip'', [Some ''-1'']), (''$filter'', [Some ''a eq 1''])] []
   = (Inl (NoPositiveIntegerValue ''$skip'' ''-1''), [])
   \<and> snd (parse_query_params python (logged parse_string)
     [(''$skip'', [Some ''-1'']), (''$filter'', [Some ''a eq 1''])] []) \<noteq> [''a eq 1'']"
proof -
  have "parse_query_params python (logged parse_string)
     [(''$skip'', [Some ''-1'']), (''$filter'', [Some ''a eq 1''])] []
   = (Inl (NoPositiveIntegerValue ''$skip'' ''-1''), [])"
    by code_simp
  then show ?thesis by simp
qed

subsection \<open>The filter parser\<close>

text \<open>
  C4.  The filter \<open>a eq 1 or b eq 2 and c eq 3\<close> parses to the \<open>or\<close> of the first
  comparison with the \<open>and\<close> of the other two.  In general \<open>and\<close> binds tighter than
  \<open>or\<close>, \<open>not\<close> binds tighter than \<open>and\<close>, and both \<open>and\<close> and \<open>or\<close> associate to the
  left: for all trees \<open>a\<close>, \<open>b\<close>, \<open>c\<close> of the parser, printed as operands, \<open>a or b and c\<close>
  is \<open>a or (b and c)\<close>, \<open>a and b or c\<close> is \<open>(a and b) or c\<close>, \<open>not a and b\<close> is
  \<open>(not a) and b\<close>, \<open>a or b or c\<close> is \<open>(a or b) or c\<close> and \<open>a and b and c\<close> is
  \<open>(a and b) and c\<close>.
\<close>

theorem parse_precedence:
  "parse_string ''a eq 1 or b eq 2 and c eq 3''
     = Inr (Logical Or (Comparison [''a''] Eq (Number (Decimal 1 0)))
              (Logical And (Comparison [''b''] Eq (Number (Decimal 2 0)))
                 (Comparison [''c''] Eq (Number (Decimal 3 0)))))
   \<and> parse_string ''a eq 1 or b eq 2 or c eq 3''
     = Inr (Logical Or
              (Logical Or (Comparison [''a''] Eq (Number (Decimal 1 0)))
                 (Comparison [''b''] Eq (Number (Decimal 2 0))))
              (Comparison [''c''] Eq (Number (Decimal 3 0))))
   \<and> parse_string ''a eq 1 or b eq 2 or c eq 3'' = parse_string ''(a eq 1 or b eq 2) or c eq 3''
   \<and> parse_string ''a eq 1 and b eq 2 and c eq 3''
     = Inr (Logical And
              (Logical And (Comparison [''a''] Eq (Number (Decimal 1 0)))
                 (Comparison [''b''] Eq (Number (Decimal 2 0))))
              (Comparison [''c''] Eq (Number (Decimal 3 0))))
   \<and> (\<forall>a b c. wf_node a \<and> wf_node b \<and> wf_node c \<longrightarrow>
          parse_string (pretty_at 0 a @ '' or '' @ pretty_at 1 b @ '' and '' @ pretty_at 2 c)
            = Inr (Logical Or a (Logical And b c))
        \<and> parse_string (pretty_at 1 a @ '' and '' @ pretty_at 2 b @ '' or '' @ pretty_at 1 c)
            = Inr (Logical Or (Logical And a b) c)
        \<and> parse_string (''not '' @ pretty_at 2 a @ '' and '' @ pretty_at 2 b)
            = Inr (Logical And (Unary NotOp a) b)
        \<and> parse_string (pretty_at 0 a @ '' or '' @ pretty_at 1 b @ '' or '' @ pretty_at 1 c)
            = Inr (Logical Or (Logical Or a b) c)
        \<and> parse_string (pretty_at 1 a @ '' and '' @ pretty_at 2 b @ '' and '' @ pretty_at 2 c)
            = Inr (Logical And (Logical And a b) c))"
proof (intro conjI allI impI)
  show "parse_string ''a eq 1 or b eq 2 and c eq 3''
     = Inr (Logical Or (Comparison [''a''] Eq (Number (Decimal 1 0)))
              (Logical And (Comparison [''b''] Eq (Number (Decimal 2 0)))
                 (Comparison [''c''] Eq (Number (Decimal 3 0)))))"
    by code_simp
  show "parse_string ''a eq 1 or b eq 2 or c eq 3''
     = Inr (Logical Or
              (Logical Or (Comparison [''a''] Eq (Number (Decimal 1 0)))
                 (Comparison [''b''] Eq (Number (Decimal 2 0))))
              (Comparison [''c''] Eq (Number (Decimal 3 0))))"
    by code_simp
  show "parse_string ''a eq 1 or b eq 2 or c eq 3'' = parse_string ''(a eq 1 or b eq 2) or c eq 3''"
    by code_simp
  show "parse_string ''a eq 1 and b eq 2 and c eq 3''
     = Inr (Logical And
              (Logical And (Comparison [''a''] Eq (Number (Decimal 1 0)))
                 (Comparison [''b''] Eq (Number (Decimal 2 0))))
              (Comparison [''c''] Eq (Number (Decimal 3 0))))"
    by code_simp
next
  fix a b c
  assume "wf_node a \<and> wf_node b \<and> wf_node c"
  then have wf: "wf_node a" "wf_node b" "wf_node c" by simp_all
  note g = precedence_general [OF wf]
  show "parse_string (pretty_at 0 a @ '' or '' @ pretty_at 1 b @ '' and '' @ pretty_at 2 c)
            = Inr (Logical Or a (Logical And b c))" by (rule g(1))
  show "parse_string (pretty_at 1 a @ '' and '' @ pretty_at 2 b @ '' or '' @ pretty_at 1 c)
            = Inr (Logical Or (Logical And a b) c)" by (rule g(2))
  show "parse_string (''not '' @ pretty_at 2 a @ '' and '' @ pretty_at 2 b)
            = Inr (Logical And (Unary NotOp a) b)" by (rule g(3))
  show "parse_string (pretty_at 0 a @ '' or '' @ pretty_at 1 b @ '' or '' @ pretty_at 1 c)
            = Inr (Logical Or (Logical Or a b) c)" by (rule g(4))
  show "parse_string (pretty_at 1 a @ '' and '' @ pretty_at 2 b @ '' and '' @ pretty_at 2 c)
            = Inr (Logical And (Logical And a b) c)" by (rule g(5))
qed

theorem parse_precedence_witness:
  "wf_node (Comparison [''a''] Eq (Number (Decimal 1 0)))
   \<and> wf_node (Logical Or (Comparison [''b''] Ne Null) (Comparison [''d''] Gt (Number (Decimal 25 1))))
   \<and> wf_node (FunctionCall Contains [''Address'', ''City''] (String ''x''))
   \<and> parse_string ''a eq 1 or (b ne null or d gt 2.5) and contains(Address/City,'x')''
     = Inr (Logical Or (Comparison [''a''] Eq (Number (Decimal 1 0)))
              (Logical And
                 (Logical Or (Comparison [''b''] Ne Null) (Comparison [''d''] Gt (Number (Decimal 25 1))))
                 (FunctionCall Contains [''Address'', ''City''] (String ''x''))))"
proof -
  let ?a = "Comparison [''a''] Eq (Number (Decimal 1 0))"
  let ?b = "Logical Or (Comparison [''b''] Ne Null) (Comparison [''d''] Gt (Number (Decimal 25 1)))"
  let ?c = "FunctionCall Contains [''Address'', ''City''] (String ''x'')"
  have wf: "wf_node ?a" "wf_node ?b" "wf_node ?c" by code_simp+
  have pa: "pretty_at 0 ?a = ''a eq 1''" by code_simp
  have pb: "pretty_at 1 ?b = ''(b ne null or d gt 2.5)''" by code_simp
  have pc: "pretty_at 2 ?c = ''contains(Address/City,'x')''" by code_simp
  have tx: "pretty_at 0 ?a @ '' or '' @ pretty_at 1 ?b @ '' and '' @ pretty_at 2 ?c
      = ''a eq 1 or (b ne null or d gt 2.5) and contains(Address/City,'x')''"
    unfolding pa pb pc by simp
  from parse_precedence wf
  have "parse_string (pretty_at 0 ?a @ '' or '' @ pretty_at 1 ?b @ '' and '' @ pretty_at 2 ?c)
      = Inr (Logical Or ?a (Logical And ?b ?c))"
    by blast
  then have "parse_string ''a eq 1 or (b ne null or d gt 2.5) and contains(Address/City,'x')''
      = Inr (Logical Or ?a (Logical And ?b ?c))"
    unfolding tx .
  with wf show ?thesis by blast
qed

text \<open>
  C5.  In a string literal every doubled quote stands for one quote of the value:
  \<open>Name eq 'O''Brien'\<close> parses to a comparison with the string \<open>O'Brien\<close>, and for
  every string \<open>s\<close> the literal made of \<open>s\<close> with its quotes doubled parses to the
  string \<open>s\<close>.  An input whose string literal is not closed before the input ends,
  that is, in which only doubled quotes follow the opening one, fails with a
  \<open>LexError\<close>, at the opening quote.
\<close>

theorem string_literal_quotes:
  "parse_string (''Name eq 'O'' @ [quote, quote] @ ''Brien'' @ [quote])
     = Inr (Comparison [''Name''] Eq (String ''O'Brien''))
   \<and> (\<forall>p op s. wf_path p \<longrightarrow>
         parse_string (join_path p @ '' '' @ comparison_op_text op @ '' '' @ quote # escape s @ [quote])
           = Inr (Comparison p op (String s)))
   \<and> (\<forall>cs. lex_string cs = None \<longleftrightarrow> (\<exists>s. cs = escape s))
   \<and> (\<forall>ls cs. list_all wf_lexeme ls \<and> lex_string cs = None \<longrightarrow>
         parse_string (render ls @ CHR '' '' # quote # cs)
           = Inl (LexError ''unterminated string literal'' (length (render ls) + 1)))
   \<and> fails_with is_lex_error (parse_string ''Name eq 'O'')"
proof (intro conjI allI impI)
  show "parse_string (''Name eq 'O'' @ [quote, quote] @ ''Brien'' @ [quote])
     = Inr (Comparison [''Name''] Eq (String ''O'Brien''))"
    by code_simp
next
  fix p op s
  assume "wf_path p"
  then have "wf_node (Comparison p op (String s))" by simp
  from parse_string_pretty [OF this]
  show "parse_string (join_path p @ '' '' @ comparison_op_text op @ '' '' @ quote # escape s @ [quote])
           = Inr (Comparison p op (String s))"
    by (simp add: pretty_def pretty_at_def glued_def)
next
  fix cs
  show "lex_string cs = None \<longleftrightarrow> (\<exists>s. cs = escape s)"
    by (rule lex_string_None_iff)
next
  fix ls cs
  assume "list_all wf_lexeme ls \<and> lex_string cs = None"
  then have "tokenize (render ls @ CHR '' '' # quote # cs)
           = Inl (LexError ''unterminated string literal'' (length (render ls) + 1))"
    by (simp add: unterminated_after_tokens)
  then show "parse_string (render ls @ CHR '' '' # quote # cs)
           = Inl (LexError ''unterminated string literal'' (length (render ls) + 1))"
    by (simp add: parse_string_def)
next
  show "fails_with is_lex_error (parse_string ''Name eq 'O'')"
    by code_simp
qed

theorem string_literal_quotes_witness:
  "wf_path [''Address'', ''City'']
   \<and> parse_string (''Address/City ne 'it'' @ [quote, quote] @ ''s '' @ [quote, quote, quote])
     = Inr (Comparison [''Address'', ''City''] Ne (String (''it'' @ [quote] @ ''s '' @ [quote])))
   \<and> list_all wf_lexeme [(Identifier, ''Name''), (Operator, ''eq'')]
   \<and> lex_string (''O'' @ [quote, quote] @ ''Brien'') = None
   \<and> parse_string (''Name eq 'O'' @ [quote, quote] @ ''Brien'')
       = Inl (LexError ''unterminated string literal'' 8)"
proof -
  have wp: "wf_path [''Address'', ''City'']" by code_simp
  have wl: "list_all wf_lexeme [(Identifier, ''Name''), (Operator, ''eq'')]" by code_simp
  have un: "lex_string (''O'' @ [quote, quote] @ ''Brien'') = None" by code_simp
  have s1: "join_path [''Address'', ''City''] @ '' '' @ comparison_op_text Ne @ '' ''
            @ quote # escape (''it'' @ [quote] @ ''s '' @ [quote]) @ [quote]
          = ''Address/City ne 'it'' @ [quote, quote] @ ''s '' @ [quote, quote, quote]"
    by code_simp
  have s2: "render [(Identifier, ''Name''), (Operator, ''eq'')] @ CHR '' '' # quote
            # (''O'' @ [quote, quote] @ ''Brien'')
          = ''Name eq 'O'' @ [quote, quote] @ ''Brien''"
    by code_simp
  have n: "length (render [(Identifier, ''Name''), (Operator, ''eq'')]) + 1 = 8"
    by code_simp
  from string_literal_quotes wp
  have "parse_string (join_path [''Address'', ''City''] @ '' '' @ comparison_op_text Ne @ '' ''
            @ quote # escape (''it'' @ [quote] @ ''s '' @ [quote]) @ [quote])
          = Inr (Comparison [''Address'', ''City''] Ne (String (''it'' @ [quote] @ ''s '' @ [quote])))"
    by blast
  then have one: "parse_string (''Address/City ne 'it'' @ [quote, quote] @ ''s '' @ [quote, quote, quote])
     = Inr (Comparison [''Address'', ''City''] Ne (String (''it'' @ [quote] @ ''s '' @ [quote])))"
    unfolding s1 .
  from string_literal_quotes wl un
  have "parse_string (render [(Identifier, ''Name''), (Operator, ''eq'')] @ CHR '' '' # quote
            # (''O'' @ [quote, quote] @ ''Brien''))
          = Inl (LexError ''unterminated string literal''
              (length (render [(Identifier, ''Name''), (Operator, ''eq'')]) + 1))"
    by blast
  then have two: "parse_string (''Name eq 'O'' @ [quote, quote] @ ''Brien'')
       = Inl (LexError ''unterminated string literal'' 8)"
    unfolding s2 n .
  from wp wl un one two show ?thesis by blast
qed



text \<open>
  C7.  For every filter string that parses to a tree, parsing the pretty-printed form
  of the tree gives the same tree again; so the pretty-printed form and the string
  have the same parse, whatever their whitespace and the case of their keywords.
\<close>

theorem pretty_roundtrip:
  assumes "parse_string s = Inr t"
  shows "parse_string (pretty t) = Inr t \<and> parse_string (pretty t) = parse_string s"
proof -
  from assms obtain ts where ts: "tokenize s = Inr ts" and p: "parse ts = Inr t"
    by (auto simp: parse_string_def split: sum.splits)
  from tokenize_from_wf [OF ts [unfolded tokenize_def]] have w: "wf_tokens ts" .
  from p obtain r where "parse_or ts = Inr (t, r)"
    by (auto simp: parse_def split: list.splits sum.splits)
  from parser_wf(1) [OF w this] have "wf_node t" by simp
  from parse_string_pretty [OF this] assms show ?thesis by simp
qed

theorem pretty_roundtrip_witness:
  "parse_string ''Address/City   EQ -012.50 AND  Not (x ne NULL or y eq TRUE) or contains ( name , 'its' )''
     = Inr (Logical Or
              (Logical And (Comparison [''Address'', ''City''] Eq (Number (Decimal (- 1250) 2)))
                 (Unary NotOp (Logical Or (Comparison [''x''] Ne Null) (Comparison [''y''] Eq (Boolean True)))))
              (FunctionCall Contains [''name''] (String ''its'')))
   \<and> pretty (Logical Or
              (Logical And (Comparison [''Address'', ''City''] Eq (Number (Decimal (- 1250) 2)))
                 (Unary NotOp (Logical Or (Comparison [''x''] Ne Null) (Comparison [''y''] Eq (Boolean True)))))
              (FunctionCall Contains [''name''] (String ''its'')))
     = ''Address/City eq -12.50 and not (x ne null or y eq true) or contains(name,'its')''
   \<and> parse_string ''Address/City eq -12.50 and not (x ne null or y eq true) or contains(name,'its')''
     = Inr (Logical Or
              (Logical And (Comparison [''Address'', ''City''] Eq (Number (Decimal (- 1250) 2)))
                 (Unary NotOp (Logical Or (Comparison [''x''] Ne Null) (Comparison [''y''] Eq (Boolean True)))))
              (FunctionCall Contains [''name''] (String ''its'')))"
proof -
  let ?t = "Logical Or
              (Logical And (Comparison [''Address'', ''City''] Eq (Number (Decimal (- 1250) 2)))
                 (Unary NotOp (Logical Or (Comparison [''x''] Ne Null) (Comparison [''y''] Eq (Boolean True)))))
              (FunctionCall Contains [''name''] (String ''its''))"
  have h: "parse_string ''Address/City   EQ -012.50 AND  Not (x ne NULL or y eq TRUE) or contains ( name , 'its' )'' = Inr ?t"
    by code_simp
  have p: "pretty ?t = ''Address/City eq -12.50 and not (x ne null or y eq true) or contains(name,'its')''"
    by code_simp
  from pretty_roundtrip [OF h] have "parse_string (pretty ?t) = Inr ?t" by simp
  with h p show ?thesis by simp
qed

end
